theory Spec2Isabelle
  imports Complex_Main "HOL-Library.Multiset" "HOL-Library.Product_Lexorder" "HOL-Library.AList"
begin

section \<open>Data model of \<open>ariautils/midi.py\<close>\<close>

text \<open>
  Python raises are values of \<open>py_error\<close>; a fallible function returns
  \<open>py_error + 'a\<close> with \<open>Inl\<close> for the exception.
\<close>

datatype py_error = IndexError | KeyError | UnboundLocalError | ZeroDivisionError

text \<open>
  The message TypedDicts. Every TypedDict of the source has fields called \<open>data\<close>,
  \<open>tick\<close> and \<open>channel\<close>; record fields are global names here, so each one carries
  the message kind as a prefix. The \<open>type\<close> tag of a message is constant within one
  message list and is left out, except for meta messages where it varies.
  Python integers are unbounded: \<open>int\<close>.
\<close>

datatype meta_type = text_type | copyright_type

record MetaMessage =
  meta_type_of :: meta_type
  meta_data :: string

record TempoMessage =
  tempo_data :: int
  tempo_tick :: int

record PedalMessage =
  pedal_data :: int
  pedal_tick :: int
  pedal_channel :: int

record InstrumentMessage =
  instrument_data :: int
  instrument_tick :: int
  instrument_channel :: int

record NoteData =
  pitch :: int
  start :: int
  end_tick :: int
  velocity :: int

record NoteMessage =
  note_data :: NoteData
  note_tick :: int
  note_channel :: int

record MidiDict =
  meta_msgs :: "MetaMessage list"
  tempo_msgs :: "TempoMessage list"
  pedal_msgs :: "PedalMessage list"
  instrument_msgs :: "InstrumentMessage list"
  note_msgs :: "NoteMessage list"
  ticks_per_beat :: int
  metadata :: "(string \<times> string) list"
  pedal_resolved :: bool

text \<open>\<open>MidiDict.__init__\<close>: notes are stably sorted by tick, and an empty tempo or
  instrument list is replaced by the default message.\<close>

definition MidiDict_init ::
  "MetaMessage list \<Rightarrow> TempoMessage list \<Rightarrow> PedalMessage list \<Rightarrow> InstrumentMessage list \<Rightarrow>
   NoteMessage list \<Rightarrow> int \<Rightarrow> (string \<times> string) list \<Rightarrow> MidiDict" where
  "MidiDict_init metas tempos pedals instruments notes tpb md =
     \<lparr> meta_msgs = metas,
       tempo_msgs = (if tempos = [] then [\<lparr>tempo_data = 500000, tempo_tick = 0\<rparr>] else tempos),
       pedal_msgs = pedals,
       instrument_msgs =
         (if instruments = []
          then [\<lparr>instrument_data = 0, instrument_tick = 0, instrument_channel = 0\<rparr>]
          else instruments),
       note_msgs = sort_key note_tick notes,
       ticks_per_beat = tpb,
       metadata = md,
       pedal_resolved = False \<rparr>"

section \<open>\<open>get_duration_ms\<close>\<close>

text \<open>
  \<open>tick2second\<close> belongs to the mido library: \<open>tick * (tempo * 1e-6 / ticks_per_beat)\<close>.
  The source computes in binary floating point; the model computes the same expression
  over the rationals, so a result of the model is the exact value that the floating-point
  result approximates. The two can be 1 ms apart where the exact value lies next to a
  tie of the final rounding, and for tick counts beyond \<open>2 ^ 53\<close>; at the inputs of
  the results below they agree. A zero \<open>ticks_per_beat\<close> raises
  \<open>ZeroDivisionError\<close>.
\<close>

definition tick2second :: "int \<Rightarrow> int \<Rightarrow> int \<Rightarrow> py_error + rat" where
  "tick2second tick tempo tpb =
     (if tpb = 0 then Inl ZeroDivisionError
      else Inr (of_int tick * (of_int tempo * (1 / 1000000) / of_int tpb)))"

text \<open>Python's \<open>round\<close> with one argument: to the nearest integer, ties to the even one.\<close>

definition py_round :: "rat \<Rightarrow> int" where
  "py_round x =
     (let f = \<lfloor>x\<rfloor>; d = x - of_int f
      in if d < 1 / 2 then f
         else if 1 / 2 < d then f + 1
         else if even f then f else f + 1)"

text \<open>The first loop: \<open>idx\<close> is the index at which the loop breaks, or the last index
  visited; on an empty list it is never bound.\<close>

fun find_idx :: "int \<Rightarrow> (nat \<times> TempoMessage) list \<Rightarrow> nat option \<Rightarrow> nat option" where
  "find_idx start_tick [] idx = idx"
| "find_idx start_tick ((i, curr_msg) # rest) idx =
     (if start_tick \<le> tempo_tick curr_msg then Some i
      else find_idx start_tick rest (Some i))"

text \<open>The loop over \<open>zip(tempo_msgs[idx:], tempo_msgs[idx + 1:])\<close>; the state is
  \<open>(duration, curr_tick)\<close>.\<close>

fun sum_intervals ::
  "(TempoMessage \<times> TempoMessage) list \<Rightarrow> int \<Rightarrow> int \<Rightarrow> rat \<Rightarrow> int \<Rightarrow> py_error + (rat \<times> int)" where
  "sum_intervals [] end_t tpb duration curr_tick = Inr (duration, curr_tick)"
| "sum_intervals ((curr_msg, next_msg) # rest) end_t tpb duration curr_tick =
     (let curr_tempo = tempo_data curr_msg;
          delta_tick = (if end_t < tempo_tick next_msg then end_t - curr_tick
                        else tempo_tick next_msg - curr_tick)
      in case tick2second delta_tick curr_tempo tpb of
           Inl e \<Rightarrow> Inl e
         | Inr s \<Rightarrow>
             if end_t < tempo_tick next_msg then Inr (duration + s, curr_tick)
             else sum_intervals rest end_t tpb (duration + s) (tempo_tick next_msg))"

definition get_duration_ms :: "int \<Rightarrow> int \<Rightarrow> TempoMessage list \<Rightarrow> int \<Rightarrow> py_error + int" where
  "get_duration_ms start_tick end_t tempos tpb =
     (case find_idx start_tick (enumerate 0 tempos) None of
        None \<Rightarrow> Inl UnboundLocalError
      | Some idx0 \<Rightarrow>
          (let idx = (if 0 < idx0 then idx0 - 1 else idx0)
           in case sum_intervals (zip (drop idx tempos) (drop (idx + 1) tempos))
                     end_t tpb 0 start_tick of
                Inl e \<Rightarrow> Inl e
              | Inr (duration, curr_tick) \<Rightarrow>
                  if tempo_tick (last tempos) < end_t
                  then (case tick2second (end_t - curr_tick) (tempo_data (last tempos)) tpb of
                          Inl e \<Rightarrow> Inl e
                        | Inr s \<Rightarrow> Inr (py_round ((duration + s) * 1000)))
                  else Inr (py_round (duration * 1000))))"

section \<open>\<open>MidiDict._build_pedal_intervals\<close>\<close>

text \<open>
  A Python dict that is iterated is an association list in insertion order:
  \<open>AList.update\<close> overwrites a present key in place and appends a new one,
  \<open>AList.delete\<close> is \<open>del\<close>, \<open>map_of\<close> is the lookup.
  An interval \<open>[start, end]\<close> (a two-element list in the source) is a pair.
\<close>

type_synonym pedal_intervals = "(int \<times> (int \<times> int) list) list"

text \<open>\<open>d[channel].append(iv)\<close> on a \<open>defaultdict(list)\<close>.\<close>

definition append_interval :: "int \<Rightarrow> int \<times> int \<Rightarrow> pedal_intervals \<Rightarrow> pedal_intervals" where
  "append_interval channel iv d =
     AList.update channel ((case map_of d channel of None \<Rightarrow> [] | Some ivs \<Rightarrow> ivs) @ [iv]) d"

text \<open>Reading \<open>d[channel]\<close> on a \<open>defaultdict(list)\<close>.\<close>

definition intervals_of :: "pedal_intervals \<Rightarrow> int \<Rightarrow> (int \<times> int) list" where
  "intervals_of d channel = (case map_of d channel of None \<Rightarrow> [] | Some ivs \<Rightarrow> ivs)"

text \<open>The loop over the pedal messages; the state is
  \<open>(channel_to_pedal_intervals, pedal_status)\<close>.\<close>

fun pedal_loop ::
  "PedalMessage list \<Rightarrow> pedal_intervals \<Rightarrow> (int \<times> int) list \<Rightarrow>
   pedal_intervals \<times> (int \<times> int) list" where
  "pedal_loop [] ivs pedal_status = (ivs, pedal_status)"
| "pedal_loop (pedal_msg # rest) ivs pedal_status =
     (let tick = pedal_tick pedal_msg;
          channel = pedal_channel pedal_msg;
          data = pedal_data pedal_msg
      in if data = 1 \<and> map_of pedal_status channel = None
         then pedal_loop rest ivs (AList.update channel tick pedal_status)
         else if data = 0 \<and> map_of pedal_status channel \<noteq> None
         then pedal_loop rest
                (append_interval channel (the (map_of pedal_status channel), tick) ivs)
                (AList.delete channel pedal_status)
         else pedal_loop rest ivs pedal_status)"

text \<open>The pedal status left by the loop: the channels whose pedal is still down.\<close>

definition unclosed_pedals :: "MidiDict \<Rightarrow> (int \<times> int) list" where
  "unclosed_pedals md = snd (pedal_loop (sort_key pedal_tick (pedal_msgs md)) [] [])"

text \<open>The function sorts \<open>self.pedal_msgs\<close> in place, so it returns the document too.
  \<open>self.note_msgs[-1]\<close> raises \<open>IndexError\<close> on an empty list.\<close>

definition build_pedal_intervals :: "MidiDict \<Rightarrow> py_error + (MidiDict \<times> pedal_intervals)" where
  "build_pedal_intervals md =
     (let pedals = sort_key pedal_tick (pedal_msgs md);
          (ivs, pedal_status) = pedal_loop pedals [] []
      in if note_msgs md = [] then Inl IndexError
         else
           (let final_tick = end_tick (note_data (last (note_msgs md)))
            in Inr (md\<lparr>pedal_msgs := pedals\<rparr>,
                    fold (\<lambda>(channel, start_tick). append_interval channel (start_tick, final_tick))
                      pedal_status ivs)))"

section \<open>\<open>MidiDict.resolve_overlaps\<close>\<close>

text \<open>
  The source collects references to the note dictionaries in
  \<open>note_msgs_c[channel][pitch]\<close> and writes through them. Here the store is the list
  \<open>note_msgs\<close> itself and a reference is an index into it.
\<close>

definition set_end :: "NoteMessage \<Rightarrow> int \<Rightarrow> NoteMessage" where
  "set_end msg t = msg\<lparr>note_data := (note_data msg)\<lparr>end_tick := t\<rparr>\<rparr>"

text \<open>The keys of a dict filled by the elements of a list, in insertion order.\<close>

fun first_seen :: "'a list \<Rightarrow> 'a list" where
  "first_seen [] = []"
| "first_seen (x # xs) = x # first_seen (filter (\<lambda>y. y \<noteq> x) xs)"

text \<open>The index lists \<open>note_msgs_c[channel][pitch]\<close>, in the order in which the two
  nested loops over \<open>items()\<close> visit them.\<close>

definition note_groups :: "NoteMessage list \<Rightarrow> nat list list" where
  "note_groups ns =
     concat (map (\<lambda>c.
        map (\<lambda>p. filter (\<lambda>i. note_channel (ns ! i) = c \<and> pitch (note_data (ns ! i)) = p)
                     [0..<length ns])
            (first_seen (map (\<lambda>m. pitch (note_data m)) (filter (\<lambda>m. note_channel m = c) ns))))
        (first_seen (map note_channel ns)))"

text \<open>The sort key \<open>(start, end)\<close> of the message behind an index.\<close>

definition start_end_key :: "NoteMessage list \<Rightarrow> nat \<Rightarrow> int \<times> int" where
  "start_end_key store i = (start (note_data (store ! i)), end_tick (note_data (store ! i)))"

text \<open>
  The loop \<open>for idx, msg in enumerate(msgs)\<close>. \<open>msgs\<close> is the sorted index list,
  the fourth argument its part still to visit. \<open>msgs[idx - 1]\<close> with \<open>idx = 0\<close> is
  Python's \<open>msgs[-1]\<close>, the last element.
\<close>

fun scan_msgs ::
  "nat list \<Rightarrow> nat \<Rightarrow> int \<Rightarrow> nat list \<Rightarrow> NoteMessage list \<Rightarrow> NoteMessage list" where
  "scan_msgs msgs idx prev_off_tick [] store = store"
| "scan_msgs msgs idx prev_off_tick (msg # rest) store =
     (let on_tick = start (note_data (store ! msg));
          off_tick = end_tick (note_data (store ! msg));
          prev = msgs ! (if idx = 0 then length msgs - 1 else idx - 1);
          store' = (if on_tick < prev_off_tick
                    then store[prev := set_end (store ! prev) on_tick]
                    else store)
      in scan_msgs msgs (Suc idx) off_tick rest store')"

definition process_group :: "NoteMessage list \<Rightarrow> nat list \<Rightarrow> NoteMessage list" where
  "process_group store idxs =
     (let msgs = sort_key (start_end_key store) idxs
      in scan_msgs msgs 0 (- 1) msgs store)"

definition resolve_overlaps_notes :: "NoteMessage list \<Rightarrow> NoteMessage list" where
  "resolve_overlaps_notes ns = foldl process_group ns (note_groups ns)"

definition resolve_overlaps :: "MidiDict \<Rightarrow> MidiDict" where
  "resolve_overlaps md = md\<lparr>note_msgs := resolve_overlaps_notes (note_msgs md)\<rparr>"

section \<open>\<open>MidiDict.resolve_pedal\<close>\<close>

text \<open>The inner loop over the pedal intervals of the note's channel: the first interval
  with \<open>pedal_start < note_end < pedal_end\<close> sets the end, then \<open>break\<close>.\<close>

definition extend_note :: "(int \<times> int) list \<Rightarrow> NoteMessage \<Rightarrow> NoteMessage" where
  "extend_note ivs msg =
     (case find (\<lambda>(pedal_start, pedal_end).
                   pedal_start < end_tick (note_data msg) \<and> end_tick (note_data msg) < pedal_end) ivs of
        None \<Rightarrow> msg
      | Some (pedal_start, pedal_end) \<Rightarrow> set_end msg pedal_end)"

text \<open>Every note is visited once (grouped by channel) and its new end depends on the
  note alone, so the loops are a map over \<open>note_msgs\<close>. The warning printed when
  \<open>pedal_resolved\<close> is already set has no effect on the result.\<close>

definition resolve_pedal :: "MidiDict \<Rightarrow> py_error + MidiDict" where
  "resolve_pedal md =
     (case build_pedal_intervals md of
        Inl e \<Rightarrow> Inl e
      | Inr (md', channel_to_pedal_intervals) \<Rightarrow>
          Inr ((resolve_overlaps
                 (md'\<lparr>note_msgs :=
                        map (\<lambda>msg. extend_note
                                     (intervals_of channel_to_pedal_intervals (note_channel msg)) msg)
                            (note_msgs md')\<rparr>))
               \<lparr>pedal_resolved := True\<rparr>))"

section \<open>\<open>MidiDict.remove_redundant_pedals\<close>\<close>

text \<open>The \<open>while\<close> loop of \<open>_is_pedal_useful\<close>: the list is the part of \<open>note_msgs\<close>
  from \<open>note_idx\<close> on, \<open>note_start\<close> the start of the note read last.\<close>

fun useful_loop :: "int \<Rightarrow> int \<Rightarrow> NoteMessage list \<Rightarrow> int \<Rightarrow> bool" where
  "useful_loop pedal_start_tick pedal_end_tick [] note_start = False"
| "useful_loop pedal_start_tick pedal_end_tick (note_msg # rest) note_start =
     (if note_start \<le> pedal_end_tick
      then (if pedal_start_tick \<le> end_tick (note_data note_msg)
               \<and> end_tick (note_data note_msg) \<le> pedal_end_tick
            then True
            else useful_loop pedal_start_tick pedal_end_tick rest (start (note_data note_msg)))
      else False)"

definition is_pedal_useful :: "int \<Rightarrow> int \<Rightarrow> NoteMessage list \<Rightarrow> py_error + bool" where
  "is_pedal_useful pedal_start_tick pedal_end_tick notes =
     (case notes of
        [] \<Rightarrow> Inl IndexError
      | note_msg # _ \<Rightarrow>
          Inr (useful_loop pedal_start_tick pedal_end_tick notes (start (note_data note_msg))))"

text \<open>
  The main loop of \<open>_process_channel_pedals\<close> over \<open>enumerate(self.pedal_msgs)\<close>.
  \<open>n\<close> is \<open>len(self.pedal_msgs)\<close>; the state is \<open>pedal_msg_idxs_to_remove\<close> and the
  pair \<open>(pedal_down_tick, pedal_down_msg_idx)\<close>, which the source sets and clears
  together.
\<close>

fun pedal_scan ::
  "int \<Rightarrow> nat \<Rightarrow> NoteMessage list \<Rightarrow> (nat \<times> PedalMessage) list \<Rightarrow> nat list \<Rightarrow>
   (int \<times> nat) option \<Rightarrow> py_error + nat list" where
  "pedal_scan channel n notes [] to_remove down = Inr to_remove"
| "pedal_scan channel n notes ((pedal_msg_idx, pedal_msg) # rest) to_remove down =
     (if pedal_channel pedal_msg \<noteq> channel
      then pedal_scan channel n notes rest to_remove down
      else
        (let to_remove1 =
               (if int pedal_msg_idx = int n - 1 \<and> pedal_data pedal_msg = 1
                then to_remove @ [pedal_msg_idx] else to_remove)
         in case down of
              None \<Rightarrow>
                if pedal_data pedal_msg = 1
                then pedal_scan channel n notes rest to_remove1
                       (Some (pedal_tick pedal_msg, pedal_msg_idx))
                else pedal_scan channel n notes rest (to_remove1 @ [pedal_msg_idx]) None
            | Some (pedal_down_tick, pedal_down_msg_idx) \<Rightarrow>
                if pedal_data pedal_msg = 1
                then pedal_scan channel n notes rest (to_remove1 @ [pedal_msg_idx]) down
                else
                  (case is_pedal_useful pedal_down_tick (pedal_tick pedal_msg) notes of
                     Inl e \<Rightarrow> Inl e
                   | Inr pedal_is_useful \<Rightarrow>
                       pedal_scan channel n notes rest
                         (if pedal_is_useful then to_remove1
                          else to_remove1 @ [pedal_down_msg_idx, pedal_msg_idx])
                         None)))"

text \<open>\<open>[msg for _idx, msg in enumerate(msgs) if _idx not in idxs]\<close>.\<close>

definition remove_idxs :: "nat list \<Rightarrow> 'a list \<Rightarrow> 'a list" where
  "remove_idxs idxs msgs = map snd (filter (\<lambda>(i, m). i \<notin> set idxs) (enumerate 0 msgs))"

definition process_channel_pedals :: "int \<Rightarrow> MidiDict \<Rightarrow> py_error + MidiDict" where
  "process_channel_pedals channel md =
     (let notes = filter (\<lambda>msg. note_channel msg = channel) (note_msgs md)
      in if notes = []
         then Inr (md\<lparr>pedal_msgs :=
                 remove_idxs
                   (map fst (filter (\<lambda>(i, m). pedal_channel m = channel)
                               (enumerate 0 (pedal_msgs md))))
                   (pedal_msgs md)\<rparr>)
         else
           (case pedal_scan channel (length (pedal_msgs md)) notes
                   (enumerate 0 (pedal_msgs md)) [] None of
              Inl e \<Rightarrow> Inl e
            | Inr to_remove \<Rightarrow> Inr (md\<lparr>pedal_msgs := remove_idxs to_remove (pedal_msgs md)\<rparr>)))"

text \<open>
  The source iterates over the Python set of the channels of \<open>pedal_msgs\<close>, whose order
  the language does not fix. The order is the first argument: a list that enumerates
  that set.
\<close>

fun process_channels :: "int list \<Rightarrow> MidiDict \<Rightarrow> py_error + MidiDict" where
  "process_channels [] md = Inr md"
| "process_channels (channel # rest) md =
     (case process_channel_pedals channel md of
        Inl e \<Rightarrow> Inl e
      | Inr md' \<Rightarrow> process_channels rest md')"

definition channel_order :: "int list \<Rightarrow> MidiDict \<Rightarrow> bool" where
  "channel_order channels md \<longleftrightarrow>
     distinct channels \<and> set channels = set (map pedal_channel (pedal_msgs md))"

definition remove_redundant_pedals :: "int list \<Rightarrow> MidiDict \<Rightarrow> py_error + MidiDict" where
  "remove_redundant_pedals channels md = process_channels channels md"

section \<open>\<open>MidiDict.remove_instruments\<close>\<close>

definition program_to_instrument :: "int \<Rightarrow> string option" where
  "program_to_instrument i =
     (if i < 0 \<or> 127 < i then None
      else if i \<le> 7 then Some ''piano''
      else if i \<le> 15 then Some ''chromatic''
      else if i \<le> 23 then Some ''organ''
      else if i \<le> 31 then Some ''guitar''
      else if i \<le> 39 then Some ''bass''
      else if i \<le> 47 then Some ''strings''
      else if i \<le> 55 then Some ''ensemble''
      else if i \<le> 63 then Some ''brass''
      else if i \<le> 71 then Some ''reed''
      else if i \<le> 79 then Some ''pipe''
      else if i \<le> 87 then Some ''synth_lead''
      else if i \<le> 95 then Some ''synth_pad''
      else if i \<le> 103 then Some ''synth_effect''
      else if i \<le> 111 then Some ''ethnic''
      else if i \<le> 119 then Some ''percussive''
      else Some ''sfx'')"

text \<open>\<open>config[self.program_to_instrument[i]] is True\<close>; a missing key raises.\<close>

definition flagged :: "(string \<rightharpoonup> bool) \<Rightarrow> int \<Rightarrow> py_error + bool" where
  "flagged config i =
     (case program_to_instrument i of
        None \<Rightarrow> Inl KeyError
      | Some name \<Rightarrow> (case config name of None \<Rightarrow> Inl KeyError | Some b \<Rightarrow> Inr b))"

text \<open>The comprehension over \<open>range(1, 127 + 1)\<close>.\<close>

fun collect_programs :: "(string \<rightharpoonup> bool) \<Rightarrow> int list \<Rightarrow> py_error + int list" where
  "collect_programs config [] = Inr []"
| "collect_programs config (i # rest) =
     (case flagged config i of
        Inl e \<Rightarrow> Inl e
      | Inr b \<Rightarrow>
          (case collect_programs config rest of
             Inl e \<Rightarrow> Inl e
           | Inr ps \<Rightarrow> Inr (if b then i # ps else ps)))"

definition programs_to_remove :: "(string \<rightharpoonup> bool) \<Rightarrow> py_error + int list" where
  "programs_to_remove config = collect_programs config [1..127]"

definition channels_to_remove :: "int list \<Rightarrow> InstrumentMessage list \<Rightarrow> int list" where
  "channels_to_remove programs instruments =
     filter (\<lambda>i. i \<noteq> 9)
       (map instrument_channel (filter (\<lambda>msg. instrument_data msg \<in> set programs) instruments))"

text \<open>Meta and tempo messages have no channel: \<open>msg.get("channel", -1)\<close> is \<open>-1\<close>.\<close>

definition remove_instruments :: "(string \<rightharpoonup> bool) \<Rightarrow> MidiDict \<Rightarrow> py_error + MidiDict" where
  "remove_instruments config md =
     (case programs_to_remove config of
        Inl e \<Rightarrow> Inl e
      | Inr programs \<Rightarrow>
          (let chans = channels_to_remove programs (instrument_msgs md)
           in Inr (md\<lparr>
                meta_msgs := filter (\<lambda>msg. - 1 \<notin> set chans) (meta_msgs md),
                tempo_msgs := filter (\<lambda>msg. - 1 \<notin> set chans) (tempo_msgs md),
                pedal_msgs := filter (\<lambda>msg. pedal_channel msg \<notin> set chans) (pedal_msgs md),
                instrument_msgs :=
                  filter (\<lambda>msg. instrument_channel msg \<notin> set chans) (instrument_msgs md),
                note_msgs := filter (\<lambda>msg. note_channel msg \<notin> set chans) (note_msgs md)\<rparr>)))"

section \<open>Raw MIDI events\<close>

text \<open>
  The messages of the mido library, as far as the source looks at them: the kind, the
  attributes it reads, and \<open>time\<close> as the last argument. mido's own validation of
  data bytes (pitch, velocity and program in 0..127, channel in 0..15) is not part of
  the source and is not modelled.
\<close>

datatype Message =
    MetaText meta_type string int
  | SetTempo int int
  | OtherMeta int
  | ProgramChange int int int
  | ControlChange int int int int
  | NoteOn int int int int
  | NoteOff int int int int
  | OtherMessage int

text \<open>The constructors read: \<open>MetaText type text time\<close>, \<open>SetTempo tempo time\<close>,
  \<open>OtherMeta time\<close> (any other meta message, such as \<open>end_of_track\<close>),
  \<open>ProgramChange program channel time\<close>, \<open>ControlChange control value channel time\<close>,
  \<open>NoteOn note velocity channel time\<close>, \<open>NoteOff note velocity channel time\<close>,
  \<open>OtherMessage time\<close> (any other channel message).\<close>

fun msg_time :: "Message \<Rightarrow> int" where
  "msg_time (MetaText ty txt t) = t"
| "msg_time (SetTempo tempo t) = t"
| "msg_time (OtherMeta t) = t"
| "msg_time (ProgramChange program channel t) = t"
| "msg_time (ControlChange control val channel t) = t"
| "msg_time (NoteOn note vel channel t) = t"
| "msg_time (NoteOff note vel channel t) = t"
| "msg_time (OtherMessage t) = t"

fun set_time :: "Message \<Rightarrow> int \<Rightarrow> Message" where
  "set_time (MetaText ty txt _) t = MetaText ty txt t"
| "set_time (SetTempo tempo _) t = SetTempo tempo t"
| "set_time (OtherMeta _) t = OtherMeta t"
| "set_time (ProgramChange program channel _) t = ProgramChange program channel t"
| "set_time (ControlChange control val channel _) t = ControlChange control val channel t"
| "set_time (NoteOn note vel channel _) t = NoteOn note vel channel t"
| "set_time (NoteOff note vel channel _) t = NoteOff note vel channel t"
| "set_time (OtherMessage _) t = OtherMessage t"

record MidiFile =
  mf_ticks_per_beat :: int
  tracks :: "Message list list"

section \<open>\<open>_extract_track_data\<close>\<close>

text \<open>The five output lists and \<open>last_note_on\<close>, a dict from \<open>(note, channel)\<close> to the
  list of open \<open>(start_tick, velocity)\<close> entries. It is never iterated: a map.\<close>

record track_state =
  ts_meta_msgs :: "MetaMessage list"
  ts_tempo_msgs :: "TempoMessage list"
  ts_pedal_msgs :: "PedalMessage list"
  ts_instrument_msgs :: "InstrumentMessage list"
  ts_note_msgs :: "NoteMessage list"
  last_note_on :: "int \<times> int \<rightharpoonup> (int \<times> int) list"

definition init_track_state :: track_state where
  "init_track_state =
     \<lparr> ts_meta_msgs = [], ts_tempo_msgs = [], ts_pedal_msgs = [], ts_instrument_msgs = [],
       ts_note_msgs = [], last_note_on = Map.empty \<rparr>"

text \<open>\<open>last_note_on[(note, channel)].append((time, velocity))\<close> on a
  \<open>defaultdict(list)\<close>.\<close>

definition open_note :: "int \<Rightarrow> int \<Rightarrow> int \<Rightarrow> int \<Rightarrow> track_state \<Rightarrow> track_state" where
  "open_note note vel channel t s =
     s\<lparr>last_note_on :=
         (last_note_on s)((note, channel) \<mapsto>
            (case last_note_on s (note, channel) of None \<Rightarrow> [] | Some l \<Rightarrow> l) @ [(t, vel)])\<rparr>"

text \<open>The branch for \<open>note_off\<close>, and for \<open>note_on\<close> with velocity 0.\<close>

definition close_note :: "int \<Rightarrow> int \<Rightarrow> int \<Rightarrow> track_state \<Rightarrow> track_state" where
  "close_note note channel t s =
     (case last_note_on s (note, channel) of
        None \<Rightarrow> s
      | Some open_notes \<Rightarrow>
          (let end_t = t;
               notes_to_close = filter (\<lambda>(start_tick, vel). start_tick \<noteq> end_t) open_notes;
               notes_to_keep = filter (\<lambda>(start_tick, vel). start_tick = end_t) open_notes;
               closed = map (\<lambda>(start_tick, vel).
                          \<lparr> note_data = \<lparr>pitch = note, start = start_tick, end_tick = end_t,
                                          velocity = vel\<rparr>,
                            note_tick = start_tick, note_channel = channel \<rparr>) notes_to_close
           in s\<lparr> ts_note_msgs := ts_note_msgs s @ closed,
                 last_note_on :=
                   (if 0 < length notes_to_close \<and> 0 < length notes_to_keep
                    then (last_note_on s)((note, channel) \<mapsto> notes_to_keep)
                    else (last_note_on s)((note, channel) := None)) \<rparr>))"

fun extract_step :: "Message \<Rightarrow> track_state \<Rightarrow> track_state" where
  "extract_step (MetaText ty txt t) s =
     s\<lparr>ts_meta_msgs := ts_meta_msgs s @ [\<lparr>meta_type_of = ty, meta_data = txt\<rparr>]\<rparr>"
| "extract_step (SetTempo tempo t) s =
     s\<lparr>ts_tempo_msgs := ts_tempo_msgs s @ [\<lparr>tempo_data = tempo, tempo_tick = t\<rparr>]\<rparr>"
| "extract_step (OtherMeta t) s = s"
| "extract_step (ProgramChange program channel t) s =
     s\<lparr>ts_instrument_msgs := ts_instrument_msgs s @
         [\<lparr>instrument_data = program, instrument_tick = t, instrument_channel = channel\<rparr>]\<rparr>"
| "extract_step (ControlChange control val channel t) s =
     (if control = 64
      then s\<lparr>ts_pedal_msgs := ts_pedal_msgs s @
               [\<lparr>pedal_data = (if val < 64 then 0 else 1), pedal_tick = t,
                 pedal_channel = channel\<rparr>]\<rparr>
      else s)"
| "extract_step (NoteOn note vel channel t) s =
     (if 0 < vel then open_note note vel channel t s
      else if vel = 0 then close_note note channel t s
      else s)"
| "extract_step (NoteOff note vel channel t) s = close_note note channel t s"
| "extract_step (OtherMessage t) s = s"

definition extract_track_data ::
  "Message list \<Rightarrow>
   MetaMessage list \<times> TempoMessage list \<times> PedalMessage list \<times> InstrumentMessage list \<times>
   NoteMessage list" where
  "extract_track_data track =
     (let s = fold extract_step track init_track_state
      in (ts_meta_msgs s, ts_tempo_msgs s, ts_pedal_msgs s, ts_instrument_msgs s,
          ts_note_msgs s))"

text \<open>The first loop of \<open>midi_to_dict\<close>: delta times to absolute ticks.\<close>

fun to_absolute :: "int \<Rightarrow> Message list \<Rightarrow> Message list" where
  "to_absolute curr_tick [] = []"
| "to_absolute curr_tick (message # rest) =
     set_time message (msg_time message + curr_tick)
       # to_absolute (msg_time message + curr_tick) rest"

section \<open>\<open>dict_to_midi\<close>\<close>

text \<open>\<open>end_msgs\<close>: a dict from \<open>(channel, pitch)\<close> to the \<open>(start, end)\<close> pairs of its
  notes, in insertion order.\<close>

definition end_msgs :: "NoteMessage list \<Rightarrow> ((int \<times> int) \<times> (int \<times> int) list) list" where
  "end_msgs ns =
     map (\<lambda>k. (k, map (\<lambda>m. (start (note_data m), end_tick (note_data m)))
                     (filter (\<lambda>m. (note_channel m, pitch (note_data m)) = k) ns)))
         (first_seen (map (\<lambda>m. (note_channel m, pitch (note_data m))) ns))"

text \<open>The note-offs of one key: an end is added unless some pair of the same key has
  \<open>start < _start < end < _end\<close>.\<close>

definition end_events :: "(int \<times> int) \<times> (int \<times> int) list \<Rightarrow> Message list" where
  "end_events kv =
     (case kv of ((channel, p), v) \<Rightarrow>
        map (\<lambda>(s, e). NoteOn p 0 channel e)
          (filter (\<lambda>(s, e). \<not> (\<exists>(s', e') \<in> set v. s < s' \<and> s' < e \<and> e < e')) v))"

text \<open>\<open>_sort_fn\<close>: only note messages have a velocity.\<close>

fun sort_fn :: "Message \<Rightarrow> int \<times> int" where
  "sort_fn (NoteOn note vel channel t) = (t, vel)"
| "sort_fn (NoteOff note vel channel t) = (t, vel)"
| "sort_fn msg = (msg_time msg, 1000)"

text \<open>Absolute ticks to delta times: \<open>msg.time -= tick; tick += msg.time\<close>.\<close>

fun to_delta :: "int \<Rightarrow> Message list \<Rightarrow> Message list" where
  "to_delta tick [] = []"
| "to_delta tick (msg # rest) =
     set_time msg (msg_time msg - tick) # to_delta (tick + (msg_time msg - tick)) rest"

text \<open>All messages in one unordered track, as the source appends them.\<close>

definition unordered_track :: "MidiDict \<Rightarrow> Message list" where
  "unordered_track md =
     map (\<lambda>m. SetTempo (tempo_data m) (tempo_tick m)) (tempo_msgs md)
     @ map (\<lambda>m. ControlChange 64 (pedal_data m * 127) (pedal_channel m) (pedal_tick m))
         (pedal_msgs md)
     @ map (\<lambda>m. ProgramChange (instrument_data m) (instrument_channel m) (instrument_tick m))
         (instrument_msgs md)
     @ map (\<lambda>m. NoteOn (pitch (note_data m)) (velocity (note_data m)) (note_channel m)
                   (start (note_data m))) (note_msgs md)
     @ concat (map end_events (end_msgs (note_msgs md)))"

definition dict_to_midi :: "MidiDict \<Rightarrow> MidiFile" where
  "dict_to_midi md =
     \<lparr> mf_ticks_per_beat = ticks_per_beat md,
       tracks = [to_delta 0 (sort_key sort_fn (unordered_track md)) @ [OtherMeta 0]] \<rparr>"

text \<open>Re-pairing the track of a file: absolute ticks, then \<open>_extract_track_data\<close>; the
  notes are the fifth component.\<close>

definition repaired_notes :: "Message list \<Rightarrow> NoteMessage list" where
  "repaired_notes track =
     (case extract_track_data (to_absolute 0 track) of
        (metas, tempos, pedals, instruments, notes) \<Rightarrow> notes)"

section \<open>Notions for the results on \<open>resolve_overlaps\<close>\<close>

text \<open>
  What the loop of \<open>scan_msgs\<close> computes when no start tick lies below \<open>-1\<close>:
  each message is cut back to the start of its successor in the sorted list.
\<close>

fun trim :: "nat list \<Rightarrow> NoteMessage list \<Rightarrow> NoteMessage list" where
  "trim (a # b # rest) store =
     trim (b # rest)
       (if start (note_data (store ! b)) < end_tick (note_data (store ! a))
        then store[a := set_end (store ! a) (start (note_data (store ! b)))]
        else store)"
| "trim [a] store = store"
| "trim [] store = store"

text \<open>Two messages that differ at most in their end tick.\<close>

definition eq_upto_end :: "NoteMessage \<Rightarrow> NoteMessage \<Rightarrow> bool" where
  "eq_upto_end m m' \<longleftrightarrow>
     note_channel m' = note_channel m \<and> note_tick m' = note_tick m
     \<and> pitch (note_data m') = pitch (note_data m)
     \<and> start (note_data m') = start (note_data m)
     \<and> velocity (note_data m') = velocity (note_data m)"

text \<open>In the order \<open>(start, end)\<close> every message of the index list ends no later
  than each later one starts.\<close>

definition chain_ok :: "NoteMessage list \<Rightarrow> nat list \<Rightarrow> bool" where
  "chain_ok store idxs \<longleftrightarrow>
     sorted_wrt (\<lambda>i j. end_tick (note_data (store ! i)) \<le> start (note_data (store ! j)))
       (sort_key (start_end_key store) idxs)"

text \<open>The index list \<open>note_msgs_c[c][p]\<close>.\<close>

definition group_idxs :: "NoteMessage list \<Rightarrow> int \<Rightarrow> int \<Rightarrow> nat list" where
  "group_idxs ns c p =
     filter (\<lambda>i. note_channel (ns ! i) = c \<and> pitch (note_data (ns ! i)) = p) [0..<length ns]"

text \<open>The notions of the claims about overlaps: two notes of one channel and pitch
  overlap when their ranges \<open>[start, end)\<close> share a tick.\<close>

definition same_key :: "NoteMessage \<Rightarrow> NoteMessage \<Rightarrow> bool" where
  "same_key m m' \<longleftrightarrow>
     note_channel m = note_channel m' \<and> pitch (note_data m) = pitch (note_data m')"

definition ranges_overlap :: "NoteMessage \<Rightarrow> NoteMessage \<Rightarrow> bool" where
  "ranges_overlap m m' \<longleftrightarrow>
     max (start (note_data m)) (start (note_data m'))
       < min (end_tick (note_data m)) (end_tick (note_data m'))"

text \<open>No two messages at different positions have the same key and overlapping
  ranges (the relation is symmetric, so \<open>sorted_wrt\<close> states it for every pair).\<close>

definition no_overlaps :: "NoteMessage list \<Rightarrow> bool" where
  "no_overlaps ns \<longleftrightarrow> sorted_wrt (\<lambda>m m'. same_key m m' \<longrightarrow> \<not> ranges_overlap m m') ns"

text \<open>\<open>m'\<close> has length zero and lies strictly inside \<open>m\<close>.\<close>

definition point_inside :: "NoteMessage \<Rightarrow> NoteMessage \<Rightarrow> bool" where
  "point_inside m m' \<longleftrightarrow>
     start (note_data m') = end_tick (note_data m')
     \<and> start (note_data m) < start (note_data m') \<and> start (note_data m') < end_tick (note_data m)"

definition no_inner_points :: "NoteMessage list \<Rightarrow> bool" where
  "no_inner_points ns \<longleftrightarrow>
     sorted_wrt (\<lambda>m m'. same_key m m' \<longrightarrow> \<not> point_inside m m' \<and> \<not> point_inside m' m) ns"

text \<open>The loop of \<open>scan_msgs\<close> starts with \<open>prev_off_tick = -1\<close>, so a first
  message that starts below \<open>-1\<close> makes it write through \<open>msgs[-1]\<close>. Notes are
  regular when none starts below \<open>-1\<close> and none ends before it starts; every note of
  the data model (ticks not negative, \<open>start \<le> end\<close>) is.\<close>

definition regular_notes :: "NoteMessage list \<Rightarrow> bool" where
  "regular_notes ns \<longleftrightarrow>
     (\<forall>m\<in>set ns. - 1 \<le> start (note_data m) \<and> start (note_data m) \<le> end_tick (note_data m))"

text \<open>The store after the first step of \<open>scan_msgs\<close>: if the first message of the
  sorted list starts below \<open>-1\<close>, the last one is cut back to that start.\<close>

definition wrap_store :: "NoteMessage list \<Rightarrow> nat list \<Rightarrow> NoteMessage list" where
  "wrap_store store msgs =
     (case msgs of
        [] \<Rightarrow> store
      | a # rest \<Rightarrow>
          if start (note_data (store ! a)) < - 1
          then store[last msgs := set_end (store ! last msgs) (start (note_data (store ! a)))]
          else store)"

text \<open>Any two messages of the index list are apart: one ends no later than the other
  starts.\<close>

definition group_sep :: "NoteMessage list \<Rightarrow> nat list \<Rightarrow> bool" where
  "group_sep store idxs \<longleftrightarrow>
     (\<forall>i\<in>set idxs. \<forall>j\<in>set idxs. i \<noteq> j \<longrightarrow>
        end_tick (note_data (store ! i)) \<le> start (note_data (store ! j))
        \<or> end_tick (note_data (store ! j)) \<le> start (note_data (store ! i)))"

section \<open>Notions for the results on the round trip\<close>

text \<open>The key \<open>(note, channel)\<close> of a note event; other events have none.\<close>

fun ev_key :: "Message \<Rightarrow> (int \<times> int) option" where
  "ev_key (NoteOn note vel channel t) = Some (note, channel)"
| "ev_key (NoteOff note vel channel t) = Some (note, channel)"
| "ev_key msg = None"

text \<open>What the pairer's state holds for one key: the notes emitted for it and its
  open entries.\<close>

definition key_state ::
  "int \<times> int \<Rightarrow> track_state \<Rightarrow> NoteMessage list \<times> (int \<times> int) list option" where
  "key_state k s =
     (filter (\<lambda>m. (pitch (note_data m), note_channel m) = k) (ts_note_msgs s), last_note_on s k)"

text \<open>The two events that \<open>dict_to_midi\<close> writes for a note: the note-on at its
  start, and the note-on with velocity 0 at its end.\<close>

definition on_event :: "NoteMessage \<Rightarrow> Message" where
  "on_event m = NoteOn (pitch (note_data m)) (velocity (note_data m)) (note_channel m)
                  (start (note_data m))"

definition off_event :: "NoteMessage \<Rightarrow> Message" where
  "off_event m = NoteOn (pitch (note_data m)) 0 (note_channel m) (end_tick (note_data m))"

definition on_off_events :: "NoteMessage list \<Rightarrow> Message list" where
  "on_off_events ms = concat (map (\<lambda>m. [on_event m, off_event m]) ms)"

text \<open>Notes of one key in sequence: each has positive length and velocity and
  starts no earlier than \<open>t\<close>, the end of its predecessor.\<close>

fun chain :: "int \<Rightarrow> NoteMessage list \<Rightarrow> bool" where
  "chain t [] = True"
| "chain t (m # ms) =
     (t \<le> start (note_data m) \<and> start (note_data m) < end_tick (note_data m)
      \<and> 0 < velocity (note_data m) \<and> chain (end_tick (note_data m)) ms)"

text \<open>The pairer sets the tick of a note to its start.\<close>

definition retick :: "NoteMessage \<Rightarrow> NoteMessage" where
  "retick m = m\<lparr>note_tick := start (note_data m)\<rparr>"

definition note_key :: "NoteMessage \<Rightarrow> int \<times> int" where
  "note_key m = (pitch (note_data m), note_channel m)"

text \<open>The notes that \<open>midi_to_dict\<close> collects from the file written by
  \<open>dict_to_midi\<close>: the re-paired notes of every track, concatenated.\<close>

definition reassembled_notes :: "MidiDict \<Rightarrow> NoteMessage list" where
  "reassembled_notes md = concat (map repaired_notes (tracks (dict_to_midi md)))"

text \<open>A note as the tuple \<open>(pitch, channel, start, end, velocity)\<close>.\<close>

definition note_tuple :: "NoteMessage \<Rightarrow> int \<times> int \<times> int \<times> int \<times> int" where
  "note_tuple m =
     (pitch (note_data m), note_channel m, start (note_data m), end_tick (note_data m),
      velocity (note_data m))"

text \<open>The data model of a document: positive resolution and tempo, ticks not
  negative, channels in 0..15, programs and pitches in 0..127, velocities in 1..127,
  pedal state 0 or 1, \<open>start \<le> end\<close>.\<close>

definition wf_MidiDict :: "MidiDict \<Rightarrow> bool" where
  "wf_MidiDict md \<longleftrightarrow>
     0 < ticks_per_beat md
     \<and> (\<forall>m\<in>set (tempo_msgs md). 0 \<le> tempo_tick m \<and> 0 < tempo_data m)
     \<and> (\<forall>m\<in>set (pedal_msgs md). 0 \<le> pedal_tick m \<and> 0 \<le> pedal_channel m
            \<and> pedal_channel m \<le> 15 \<and> (pedal_data m = 0 \<or> pedal_data m = 1))
     \<and> (\<forall>m\<in>set (instrument_msgs md). 0 \<le> instrument_tick m \<and> 0 \<le> instrument_channel m
            \<and> instrument_channel m \<le> 15 \<and> 0 \<le> instrument_data m \<and> instrument_data m \<le> 127)
     \<and> (\<forall>m\<in>set (note_msgs md). 0 \<le> note_channel m \<and> note_channel m \<le> 15
            \<and> 0 \<le> pitch (note_data m) \<and> pitch (note_data m) \<le> 127
            \<and> 0 \<le> start (note_data m) \<and> start (note_data m) \<le> end_tick (note_data m)
            \<and> 1 \<le> velocity (note_data m) \<and> velocity (note_data m) \<le> 127)"

section \<open>Concrete documents\<close>

text \<open>Shorthands for the messages and documents of the examples below.\<close>

abbreviation note_msg :: "int \<Rightarrow> int \<Rightarrow> int \<Rightarrow> int \<Rightarrow> int \<Rightarrow> NoteMessage" where
  "note_msg channel p s e v \<equiv>
     \<lparr> note_data = \<lparr>pitch = p, start = s, end_tick = e, velocity = v\<rparr>,
       note_tick = s, note_channel = channel \<rparr>"

abbreviation pedal_msg :: "int \<Rightarrow> int \<Rightarrow> int \<Rightarrow> PedalMessage" where
  "pedal_msg channel t d \<equiv> \<lparr>pedal_data = d, pedal_tick = t, pedal_channel = channel\<rparr>"

abbreviation instrument_msg :: "int \<Rightarrow> int \<Rightarrow> int \<Rightarrow> InstrumentMessage" where
  "instrument_msg channel t program \<equiv>
     \<lparr>instrument_data = program, instrument_tick = t, instrument_channel = channel\<rparr>"

abbreviation document ::
  "PedalMessage list \<Rightarrow> InstrumentMessage list \<Rightarrow> NoteMessage list \<Rightarrow> MidiDict" where
  "document pedals instruments notes \<equiv>
     \<lparr> meta_msgs = [], tempo_msgs = [\<lparr>tempo_data = 500000, tempo_tick = 0\<rparr>],
       pedal_msgs = pedals, instrument_msgs = instruments, note_msgs = notes,
       ticks_per_beat = 480, metadata = [], pedal_resolved = False \<rparr>"

section \<open>Results for \<open>get_duration_ms\<close>\<close>

text \<open>
  C1 (as stated): with the tempo map \<open>[(tick 0, 500000)]\<close> and 480 ticks per beat,
  the duration from tick 0 to tick 480 is 1000 ms. The code does not return 1000.
\<close>

theorem C1_duration_not_1000:
  "get_duration_ms 0 480 [\<lparr>tempo_data = 500000, tempo_tick = 0\<rparr>] 480 \<noteq> Inr 1000"
  by (simp add: get_duration_ms_def tick2second_def py_round_def)

text \<open>
  C1 (amended): with the tempo map \<open>[(tick 0, 500000)]\<close> and 480 ticks per beat,
  the duration from tick 0 to tick 480 is 500 ms: one quarter note of 500000 microseconds.
\<close>

theorem C1_duration_500:
  "get_duration_ms 0 480 [\<lparr>tempo_data = 500000, tempo_tick = 0\<rparr>] 480 = Inr 500"
  by (simp add: get_duration_ms_def tick2second_def py_round_def)

text \<open>
  C5 (failing input): duration additivity within 1 ms. With the sorted tempo map
  \<open>[(0, 500000), (100, 1000000)]\<close>, 500 ticks per beat and \<open>a = 200 \<le> b = 300 \<le> c = 400\<close>,
  all three ticks lie after the last tempo change, where 100 ticks last 200 ms.
  The code returns 500 for \<open>(a, c)\<close>, 300 for \<open>(a, b)\<close> and 400 for \<open>(b, c)\<close>:
  the two parts add up to 700, which is 200 ms away from the whole.
\<close>

theorem C5_additivity_fails:
  "get_duration_ms 200 400
      [\<lparr>tempo_data = 500000, tempo_tick = 0\<rparr>, \<lparr>tempo_data = 1000000, tempo_tick = 100\<rparr>] 500
     = Inr 500
   \<and> get_duration_ms 200 300
      [\<lparr>tempo_data = 500000, tempo_tick = 0\<rparr>, \<lparr>tempo_data = 1000000, tempo_tick = 100\<rparr>] 500
     = Inr 300
   \<and> get_duration_ms 300 400
      [\<lparr>tempo_data = 500000, tempo_tick = 0\<rparr>, \<lparr>tempo_data = 1000000, tempo_tick = 100\<rparr>] 500
     = Inr 400"
  by (simp add: get_duration_ms_def tick2second_def py_round_def)

section \<open>Results for the pedal interval builder\<close>

text \<open>
  C2 (failing input): an unclosed pedal is closed at the maximum note end of the document.
  Channel 0 has the notes \<open>(start 0, end 100)\<close> and \<open>(start 10, end 20)\<close> and a
  pedal pressed at tick 5 that is never released. The code closes the interval at 20,
  the end of the note in the last position, while the maximum note end is 100.
\<close>

theorem C2_final_tick_is_last_note_end:
  "build_pedal_intervals
     (document [pedal_msg 0 5 1] [instrument_msg 0 0 0]
        [note_msg 0 60 0 100 64, note_msg 0 62 10 20 64])
   = Inr (document [pedal_msg 0 5 1] [instrument_msg 0 0 0]
            [note_msg 0 60 0 100 64, note_msg 0 62 10 20 64],
          [(0, [(5, 20)])])
   \<and> Max (set (map (\<lambda>m. end_tick (note_data m))
                 [note_msg 0 60 0 100 64, note_msg 0 62 10 20 64])) = 100"
  by (simp add: build_pedal_intervals_def append_interval_def)

lemma build_pedal_intervals_empty:
  "note_msgs md = [] \<Longrightarrow> build_pedal_intervals md = Inl IndexError"
  by (simp add: build_pedal_intervals_def split: prod.splits)

text \<open>
  C10: if \<open>note_msgs\<close> is empty and some channel's pedal is still down after the last
  pedal message, then \<open>_build_pedal_intervals\<close> raises \<open>IndexError\<close>, and so does
  \<open>resolve_pedal\<close>, which calls it.
\<close>

theorem C10_empty_notes_index_error:
  assumes "note_msgs md = []" and "unclosed_pedals md \<noteq> []"
  shows "build_pedal_intervals md = Inl IndexError \<and> resolve_pedal md = Inl IndexError"
  using assms(1) by (simp add: build_pedal_intervals_empty resolve_pedal_def)

theorem C10_witness:
  "note_msgs (document [pedal_msg 0 5 1] [instrument_msg 0 0 0] []) = []
   \<and> unclosed_pedals (document [pedal_msg 0 5 1] [instrument_msg 0 0 0] []) = [(0, 5)]
   \<and> build_pedal_intervals (document [pedal_msg 0 5 1] [instrument_msg 0 0 0] []) = Inl IndexError
   \<and> resolve_pedal (document [pedal_msg 0 5 1] [instrument_msg 0 0 0] []) = Inl IndexError"
  using C10_empty_notes_index_error [of "document [pedal_msg 0 5 1] [instrument_msg 0 0 0] []"]
  by (simp add: unclosed_pedals_def)

section \<open>Results for \<open>remove_instruments\<close>\<close>

lemma programs_piano:
  "programs_to_remove (\<lambda>name. Some (name = ''piano'')) = Inr [1, 2, 3, 4, 5, 6, 7]"
  unfolding programs_to_remove_def by code_simp

text \<open>
  C4 (failing input): the flagged programs are taken over all of 0..127. With only the
  group \<open>piano\<close> flagged (programs 0..7) and channel 0 set to program 0, the code
  removes nothing: its comprehension starts at program 1.
\<close>

theorem C4_program_0_not_removed:
  "remove_instruments (\<lambda>name. Some (name = ''piano''))
     (document [pedal_msg 0 5 1] [instrument_msg 0 0 0] [note_msg 0 60 0 100 64])
   = Inr (document [pedal_msg 0 5 1] [instrument_msg 0 0 0] [note_msg 0 60 0 100 64])
   \<and> program_to_instrument 0 = Some ''piano''"
  by (simp add: remove_instruments_def programs_piano channels_to_remove_def program_to_instrument_def)

section \<open>Results for \<open>remove_redundant_pedals\<close>\<close>

text \<open>
  C6 (failing input): a trailing unmatched pedal-on is removed. Channel 0 has one note
  and the pedal messages on at 10, on at 20, with no release. The code removes the
  second message only: the pedal-on at tick 10, never released, stays.
\<close>

theorem C6_trailing_pedal_on_kept:
  "channel_order [0] (document [pedal_msg 0 10 1, pedal_msg 0 20 1] [instrument_msg 0 0 0]
        [note_msg 0 60 0 15 64])
   \<and> remove_redundant_pedals [0]
     (document [pedal_msg 0 10 1, pedal_msg 0 20 1] [instrument_msg 0 0 0]
        [note_msg 0 60 0 15 64])
   = Inr (document [pedal_msg 0 10 1] [instrument_msg 0 0 0] [note_msg 0 60 0 15 64])"
  by (simp add: channel_order_def remove_redundant_pedals_def process_channel_pedals_def remove_idxs_def
      enumerate_eq_zip upt_rec [of 0])

section \<open>Results for the note pairer\<close>

text \<open>
  C3 (as stated): after a note-off at tick T the key keeps exactly the entries with
  start T whenever there is one, whether or not a note was closed. After a note-on at
  tick 5 and a note-off at tick 5 on the same key, the entry \<open>(5, 64)\<close> has start T,
  nothing was closed, and the key is deleted.
\<close>

theorem C3_same_tick_entry_dropped:
  "last_note_on (extract_step (NoteOn 60 64 0 5) init_track_state) (60, 0) = Some [(5, 64)]
   \<and> filter (\<lambda>(s, v). s = 5) [(5, 64 :: int)] = [(5 :: int, 64)]
   \<and> last_note_on
       (extract_step (NoteOff 60 0 0 5) (extract_step (NoteOn 60 64 0 5) init_track_state))
       (60, 0) = None"
  by (simp add: init_track_state_def open_note_def close_note_def)

text \<open>
  C3 (amended): when a note-off, or a note-on with velocity 0, at tick T arrives for a
  key with open entries, a note \<open>(pitch, channel, start = s, end = T, velocity = v)\<close> is
  emitted for every open entry with \<open>s \<noteq> T\<close>; afterwards the key holds exactly the
  entries with \<open>s = T\<close> if at least one entry was closed and at least one entry has
  \<open>s = T\<close>, and is deleted otherwise.
\<close>

theorem C3_note_off_step:
  assumes "last_note_on s (note, channel) = Some open_notes"
    and "msg = NoteOff note vel channel T \<or> msg = NoteOn note 0 channel T"
  shows "ts_note_msgs (extract_step msg s) =
           ts_note_msgs s @
           map (\<lambda>(st, v). \<lparr> note_data = \<lparr>pitch = note, start = st, end_tick = T, velocity = v\<rparr>,
                            note_tick = st, note_channel = channel \<rparr>)
             (filter (\<lambda>(st, v). st \<noteq> T) open_notes)
         \<and> last_note_on (extract_step msg s) (note, channel) =
             (if filter (\<lambda>(st, v). st \<noteq> T) open_notes \<noteq> []
                 \<and> filter (\<lambda>(st, v). st = T) open_notes \<noteq> []
              then Some (filter (\<lambda>(st, v). st = T) open_notes)
              else None)"
  using assms by (auto simp add: close_note_def Let_def)

theorem C3_witness:
  "last_note_on (fold extract_step [NoteOn 60 64 0 0, NoteOn 60 70 0 5] init_track_state) (60, 0)
     = Some [(0, 64), (5, 70)]
   \<and> ts_note_msgs (fold extract_step [NoteOn 60 64 0 0, NoteOn 60 70 0 5, NoteOff 60 0 0 5]
        init_track_state) = [note_msg 0 60 0 5 64]
   \<and> last_note_on (fold extract_step [NoteOn 60 64 0 0, NoteOn 60 70 0 5, NoteOff 60 0 0 5]
        init_track_state) (60, 0) = Some [(5, 70)]"
  using C3_note_off_step [of "fold extract_step [NoteOn 60 64 0 0, NoteOn 60 70 0 5] init_track_state"
      60 0 "[(0, 64), (5, 70)]" "NoteOff 60 0 0 5" 0 5]
  by (simp add: init_track_state_def open_note_def)

section \<open>Results for \<open>resolve_overlaps\<close>\<close>

lemma scan_msgs_trim:
  "distinct (pre @ a # rest) \<Longrightarrow>
   scan_msgs (pre @ a # rest) (Suc (length pre)) (end_tick (note_data (store ! a))) rest store
     = trim (a # rest) store"
proof (induction rest arbitrary: pre a store)
  case Nil
  then show ?case by simp
next
  case (Cons b rest)
  let ?store' = "(if start (note_data (store ! b)) < end_tick (note_data (store ! a))
        then store[a := set_end (store ! a) (start (note_data (store ! b)))]
        else store)"
  from Cons.prems have ab: "a \<noteq> b" by auto
  have same: "store ! b = ?store' ! b" using ab by simp
  from Cons.prems have d: "distinct ((pre @ [a]) @ b # rest)" by simp
  have "scan_msgs (pre @ a # b # rest) (Suc (length pre)) (end_tick (note_data (store ! a)))
          (b # rest) store
        = scan_msgs ((pre @ [a]) @ b # rest) (Suc (length (pre @ [a])))
            (end_tick (note_data (?store' ! b))) rest ?store'"
    using same by (simp add: Let_def nth_append)
  also have "\<dots> = trim (b # rest) ?store'"
    by (rule Cons.IH [OF d])
  finally show ?case by simp
qed

lemma process_group_trim:
  assumes "distinct idxs" and "\<forall>i\<in>set idxs. - 1 \<le> start (note_data (store ! i))"
  shows "process_group store idxs = trim (sort_key (start_end_key store) idxs) store"
proof (cases "sort_key (start_end_key store) idxs")
  case Nil
  then show ?thesis by (simp add: process_group_def)
next
  case (Cons a rest)
  have "a \<in> set idxs" using Cons by (metis list.set_intros(1) set_sort)
  then have st: "\<not> start (note_data (store ! a)) < - 1" using assms(2) by force
  have d: "distinct ([] @ a # rest)" using assms(1) Cons by (metis append_Nil distinct_sort)
  show ?thesis
    using scan_msgs_trim [OF d, of store] st Cons by (simp add: process_group_def Let_def)
qed

lemma eq_upto_end_refl [simp]: "eq_upto_end m m"
  by (simp add: eq_upto_end_def)

lemma eq_upto_end_set_end [simp]: "eq_upto_end m (set_end m t)"
  by (simp add: eq_upto_end_def set_end_def)

lemma eq_upto_end_trans: "eq_upto_end a b \<Longrightarrow> eq_upto_end b c \<Longrightarrow> eq_upto_end a c"
  by (simp add: eq_upto_end_def)

lemma set_end_fields [simp]:
  "start (note_data (set_end m t)) = start (note_data m)"
  "end_tick (note_data (set_end m t)) = t"
  "pitch (note_data (set_end m t)) = pitch (note_data m)"
  "note_channel (set_end m t) = note_channel m"
  by (simp_all add: set_end_def)

lemma list_all2_eq_upto_end_refl [simp]: "list_all2 eq_upto_end xs xs"
  by (simp add: list_all2_refl)

lemma eq_upto_end_update:
  "eq_upto_end (store ! i) (store[a := set_end (store ! a) t] ! i)"
  by (cases "a < length store"; cases "i = a") (simp_all add: list_update_beyond)

lemma list_all2_eq_upto_end_update:
  "list_all2 eq_upto_end store (store[a := set_end (store ! a) t])"
  by (simp add: list_all2_conv_all_nth eq_upto_end_update)

lemma list_all2_eq_upto_end_trans:
  "list_all2 eq_upto_end xs ys \<Longrightarrow> list_all2 eq_upto_end ys zs \<Longrightarrow> list_all2 eq_upto_end xs zs"
  using eq_upto_end_trans by (rule list_all2_trans)

lemma trim_eq_upto_end: "list_all2 eq_upto_end store (trim js store)"
proof (induction js store rule: trim.induct)
  case (1 a b rest store)
  show ?case
    using list_all2_eq_upto_end_trans [OF _ 1]
    by (simp add: list_all2_eq_upto_end_update) 
qed simp_all

lemma length_trim [simp]: "length (trim js store) = length store"
  using trim_eq_upto_end [of store js] by (simp add: list_all2_lengthD)

lemma trim_nth_notin: "i \<notin> set js \<Longrightarrow> trim js store ! i = store ! i"
  by (induction js store rule: trim.induct) auto

lemma trim_start [simp]: "i < length store \<Longrightarrow>
   start (note_data (trim js store ! i)) = start (note_data (store ! i))"
  using trim_eq_upto_end [of store js] by (simp add: list_all2_conv_all_nth eq_upto_end_def)

lemma trim_noop:
  "sorted_wrt (\<lambda>i j. end_tick (note_data (store ! i)) \<le> start (note_data (store ! j))) js
   \<Longrightarrow> trim js store = store"
  by (induction js store rule: trim.induct) auto

lemma trim_chain:
  assumes "distinct js" and "\<forall>i\<in>set js. i < length store"
    and "sorted (map (\<lambda>i. start (note_data (store ! i))) js)"
  shows "sorted_wrt (\<lambda>i j. end_tick (note_data (trim js store ! i)) \<le> start (note_data (store ! j))) js"
  using assms
proof (induction js store rule: trim.induct)
  case (1 a b rest store)
  let ?store' = "(if start (note_data (store ! b)) < end_tick (note_data (store ! a))
        then store[a := set_end (store ! a) (start (note_data (store ! b)))]
        else store)"
  have starts: "start (note_data (?store' ! i)) = start (note_data (store ! i))" for i
    using eq_upto_end_update [of store i a] by (simp add: eq_upto_end_def)
  have a_notin: "a \<notin> set (b # rest)" using "1.prems"(1) by simp
  have a_len: "a < length store" using "1.prems"(2) by simp
  have "sorted_wrt (\<lambda>i j. end_tick (note_data (trim (b # rest) ?store' ! i))
            \<le> start (note_data (?store' ! j))) (b # rest)"
    using "1.prems" by (intro "1.IH") (simp_all add: starts)
  then have tail: "sorted_wrt (\<lambda>i j. end_tick (note_data (trim (a # b # rest) store ! i))
            \<le> start (note_data (store ! j))) (b # rest)"
    by (simp add: starts)
  have enda: "end_tick (note_data (trim (a # b # rest) store ! a)) \<le> start (note_data (store ! b))"
    using trim_nth_notin [OF a_notin, of ?store'] a_len by (simp del: trim.simps(1) add: trim.simps(1) [of a b rest store])
  have "\<forall>j\<in>set (b # rest). start (note_data (store ! b)) \<le> start (note_data (store ! j))"
    using "1.prems"(3) by auto
  with enda have "\<forall>j\<in>set (b # rest).
      end_tick (note_data (trim (a # b # rest) store ! a)) \<le> start (note_data (store ! j))"
    by force
  with tail show ?case by (simp del: trim.simps)
qed simp_all

lemma insort_key_cong_set:
  "\<forall>y\<in>insert x (set xs). f y = g y \<Longrightarrow> insort_key f x xs = insort_key g x xs"
  by (induction xs) auto

lemma sort_key_cong_set:
  "\<forall>y\<in>set xs. f y = g y \<Longrightarrow> sort_key f xs = sort_key g xs"
proof (induction xs)
  case Nil
  then show ?case by simp
next
  case (Cons x xs)
  then have "sort_key f xs = sort_key g xs" by simp
  moreover have "insort_key f x (sort_key g xs) = insort_key g x (sort_key g xs)"
    using Cons.prems by (intro insort_key_cong_set) simp
  ultimately show ?case by simp
qed

lemma chain_ok_cong:
  assumes "\<forall>i\<in>set idxs. store' ! i = store ! i"
  shows "chain_ok store' idxs = chain_ok store idxs"
proof -
  have k: "sort_key (start_end_key store') idxs = sort_key (start_end_key store) idxs"
    using assms by (intro sort_key_cong_set) (simp add: start_end_key_def)
  have "sorted_wrt (\<lambda>i j. end_tick (note_data (store' ! i)) \<le> start (note_data (store' ! j))) js
      = sorted_wrt (\<lambda>i j. end_tick (note_data (store ! i)) \<le> start (note_data (store ! j))) js"
    if "set js = set idxs" for js
    using that assms by (intro iffI; elim sorted_wrt_mono_rel [rotated]) simp_all
  then show ?thesis unfolding chain_ok_def k by simp
qed

lemma sorted_wrt_conj:
  "sorted_wrt (\<lambda>x y. P x y \<and> Q x y) xs \<longleftrightarrow> sorted_wrt P xs \<and> sorted_wrt Q xs"
  by (induction xs) auto

text \<open>A relation known along one arrangement of a distinct list carries over to
  another arrangement, pair by pair.\<close>

lemma sorted_wrt_rearrange:
  assumes "distinct js" and "distinct js'" and "set js' = set js"
    and P: "sorted_wrt P js" and Q: "sorted_wrt Q js'"
    and fwd: "\<And>x y. P x y \<Longrightarrow> T x y"
    and bwd: "\<And>x y. P y x \<Longrightarrow> Q x y \<Longrightarrow> T x y"
  shows "sorted_wrt T js'"
  unfolding sorted_wrt_iff_nth_less
proof (intro allI impI)
  fix i j assume ij: "i < j" "j < length js'"
  let ?x = "js' ! i" and ?y = "js' ! j"
  have xy: "?x \<noteq> ?y" using ij assms(2) by (simp add: nth_eq_iff_index_eq)
  have q: "Q ?x ?y" using Q ij by (simp add: sorted_wrt_iff_nth_less)
  have "?x \<in> set js" "?y \<in> set js" using ij assms(3) by (metis nth_mem order.strict_trans)+
  then obtain a b where ab: "a < length js" "js ! a = ?x" "b < length js" "js ! b = ?y"
    by (auto simp add: in_set_conv_nth)
  with xy have "a \<noteq> b" by auto
  then consider "a < b" | "b < a" by linarith
  then show "T ?x ?y"
  proof cases
    case 1
    then have "P ?x ?y" using P ab by (metis sorted_wrt_nth_less)
    then show ?thesis by (rule fwd)
  next
    case 2
    then have "P ?y ?x" using P ab by (metis sorted_wrt_nth_less)
    then show ?thesis using q by (rule bwd)
  qed
qed

lemma sorted_start_end_key:
  "sorted_wrt (\<lambda>i j. start_end_key store i \<le> start_end_key store j)
     (sort_key (start_end_key store) idxs)"
  using sorted_sort_key [of "start_end_key store" idxs] by (simp add: sorted_wrt_map sorted_map)

lemma process_group_chain_ok:
  assumes d: "distinct idxs" and len: "\<forall>i\<in>set idxs. i < length store"
    and nonneg: "\<forall>i\<in>set idxs. - 1 \<le> start (note_data (store ! i))"
  shows "chain_ok (process_group store idxs) idxs"
proof -
  let ?js = "sort_key (start_end_key store) idxs"
  let ?store' = "trim ?js store"
  let ?js' = "sort_key (start_end_key ?store') idxs"
  have pg: "process_group store idxs = ?store'" using d nonneg by (rule process_group_trim)
  have s1: "sorted_wrt (\<lambda>i j. start_end_key store i \<le> start_end_key store j) ?js"
    by (rule sorted_start_end_key)
  then have "sorted_wrt (\<lambda>i j. start (note_data (store ! i)) \<le> start (note_data (store ! j))) ?js"
    by (rule sorted_wrt_mono_rel [rotated]) (auto simp add: start_end_key_def less_eq_prod_def)
  then have "sorted (map (\<lambda>i. start (note_data (store ! i))) ?js)"
    by (simp add: sorted_map)
  then have c1: "sorted_wrt (\<lambda>i j. end_tick (note_data (?store' ! i)) \<le> start (note_data (store ! j))) ?js"
    using d len by (intro trim_chain) simp_all
  have mem: "sorted_wrt (\<lambda>i j. i \<in> set idxs \<and> j \<in> set idxs) ?js"
    by (simp add: sorted_wrt_iff_nth_less) (metis nth_mem length_sort set_sort order.strict_trans)
  have P: "sorted_wrt (\<lambda>i j. (i \<in> set idxs \<and> j \<in> set idxs) \<and> start_end_key store i \<le> start_end_key store j
              \<and> end_tick (note_data (?store' ! i)) \<le> start (note_data (store ! j))) ?js"
    using s1 c1 mem by (simp add: sorted_wrt_conj)
  have Q: "sorted_wrt (\<lambda>i j. start_end_key ?store' i \<le> start_end_key ?store' j) ?js'"
    by (rule sorted_start_end_key)
  have "sorted_wrt (\<lambda>i j. end_tick (note_data (?store' ! i)) \<le> start (note_data (?store' ! j))) ?js'"
  proof (rule sorted_wrt_rearrange [OF _ _ _ P Q])
    show "distinct ?js" "distinct ?js'" using d by simp_all
    show "set ?js' = set ?js" by simp
  next
    fix x y
    assume "(x \<in> set idxs \<and> y \<in> set idxs) \<and> start_end_key store x \<le> start_end_key store y
              \<and> end_tick (note_data (?store' ! x)) \<le> start (note_data (store ! y))"
    then show "end_tick (note_data (?store' ! x)) \<le> start (note_data (?store' ! y))"
      using len by simp
  next
    fix x y
    assume p: "(y \<in> set idxs \<and> x \<in> set idxs) \<and> start_end_key store y \<le> start_end_key store x
              \<and> end_tick (note_data (?store' ! y)) \<le> start (note_data (store ! x))"
      and q: "start_end_key ?store' x \<le> start_end_key ?store' y"
    from p len have lx: "x < length store" and ly: "y < length store" by auto
    from p have a: "start (note_data (store ! y)) \<le> start (note_data (store ! x))"
      by (auto simp add: start_end_key_def less_eq_prod_def)
    from q lx ly have b: "start (note_data (store ! x)) \<le> start (note_data (store ! y))"
      by (auto simp add: start_end_key_def less_eq_prod_def)
    from a b have eq: "start (note_data (store ! x)) = start (note_data (store ! y))" by simp
    with q lx ly have "end_tick (note_data (?store' ! x)) \<le> end_tick (note_data (?store' ! y))"
      by (auto simp add: start_end_key_def less_eq_prod_def)
    also have "\<dots> \<le> start (note_data (store ! x))" using p by simp
    finally show "end_tick (note_data (?store' ! x)) \<le> start (note_data (?store' ! y))"
      using eq ly by simp
  qed
  then show ?thesis by (simp add: chain_ok_def pg)
qed

lemma process_group_noop:
  assumes "distinct idxs" and "\<forall>i\<in>set idxs. - 1 \<le> start (note_data (store ! i))"
    and "chain_ok store idxs"
  shows "process_group store idxs = store"
  using assms by (simp add: process_group_trim chain_ok_def trim_noop)

lemma process_group_eq_upto_end:
  assumes "distinct idxs" and "\<forall>i\<in>set idxs. - 1 \<le> start (note_data (store ! i))"
  shows "list_all2 eq_upto_end store (process_group store idxs)"
  using assms by (simp add: process_group_trim trim_eq_upto_end)

lemma process_group_nth_notin:
  assumes "distinct idxs" and "\<forall>i\<in>set idxs. - 1 \<le> start (note_data (store ! i))"
    and "i \<notin> set idxs"
  shows "process_group store idxs ! i = store ! i"
  using assms by (simp add: process_group_trim trim_nth_notin)

lemma ranges_overlap_iff:
  "ranges_overlap m m' \<longleftrightarrow>
     {start (note_data m)..<end_tick (note_data m)}
       \<inter> {start (note_data m')..<end_tick (note_data m')} \<noteq> {}"
  by (auto simp add: ranges_overlap_def)

lemma sorted_wrt_sym_nth:
  assumes "sorted_wrt P xs" and "\<And>x y. P x y \<Longrightarrow> P y x"
    and "i < length xs" "j < length xs" "i \<noteq> j"
  shows "P (xs ! i) (xs ! j)"
proof -
  consider "i < j" | "j < i" using assms(5) by linarith
  then show ?thesis
    using assms(1-4) by cases (auto simp add: sorted_wrt_iff_nth_less)
qed

lemma sorted_wrt_either:
  assumes "sorted_wrt P xs" and "x \<in> set xs" "y \<in> set xs" "x \<noteq> y"
  shows "P x y \<or> P y x"
proof -
  from assms(2,3) obtain a b where ab: "a < length xs" "xs ! a = x" "b < length xs" "xs ! b = y"
    by (auto simp add: in_set_conv_nth)
  with assms(4) have "a \<noteq> b" by auto
  then consider "a < b" | "b < a" by linarith
  then show ?thesis using assms(1) ab by cases (auto simp add: sorted_wrt_iff_nth_less)
qed

lemma distinct_sorted_wrt_neq: "distinct xs \<Longrightarrow> sorted_wrt (\<noteq>) xs"
  by (induction xs) auto

lemma no_overlaps_nth:
  "no_overlaps ns \<longleftrightarrow>
     (\<forall>i<length ns. \<forall>j<length ns. i \<noteq> j \<and> same_key (ns ! i) (ns ! j)
        \<longrightarrow> \<not> ranges_overlap (ns ! i) (ns ! j))"
proof
  assume a: "no_overlaps ns"
  show "\<forall>i<length ns. \<forall>j<length ns. i \<noteq> j \<and> same_key (ns ! i) (ns ! j)
        \<longrightarrow> \<not> ranges_overlap (ns ! i) (ns ! j)"
  proof (intro allI impI)
    fix i j assume "i < length ns" "j < length ns" "i \<noteq> j \<and> same_key (ns ! i) (ns ! j)"
    with sorted_wrt_sym_nth [OF a [unfolded no_overlaps_def], of i j]
    show "\<not> ranges_overlap (ns ! i) (ns ! j)"
      by (auto simp add: same_key_def ranges_overlap_def max.commute min.commute)
  qed
next
  assume "\<forall>i<length ns. \<forall>j<length ns. i \<noteq> j \<and> same_key (ns ! i) (ns ! j)
        \<longrightarrow> \<not> ranges_overlap (ns ! i) (ns ! j)"
  then show "no_overlaps ns"
    by (auto simp add: no_overlaps_def sorted_wrt_iff_nth_less)
qed

lemma set_first_seen [simp]: "set (first_seen xs) = set xs"
  by (induction xs rule: first_seen.induct) auto

lemma note_groups_group_idxs:
  "note_groups ns =
     concat (map (\<lambda>c. map (group_idxs ns c)
        (first_seen (map (\<lambda>m. pitch (note_data m)) (filter (\<lambda>m. note_channel m = c) ns))))
        (first_seen (map note_channel ns)))"
  unfolding note_groups_def group_idxs_def ..

lemma note_groups_are_groups:
  assumes "g \<in> set (note_groups ns)"
  shows "\<exists>c p. g = group_idxs ns c p"
proof -
  from assms obtain gs where gs: "g \<in> set gs"
    and "gs \<in> set (map (\<lambda>c. map (group_idxs ns c)
        (first_seen (map (\<lambda>m. pitch (note_data m)) (filter (\<lambda>m. note_channel m = c) ns))))
        (first_seen (map note_channel ns)))"
    unfolding note_groups_group_idxs set_concat by (elim UN_E)
  then obtain c where "gs = map (group_idxs ns c)
        (first_seen (map (\<lambda>m. pitch (note_data m)) (filter (\<lambda>m. note_channel m = c) ns)))"
    unfolding set_map by (elim imageE)
  with gs have "g \<in> group_idxs ns c `
      set (first_seen (map (\<lambda>m. pitch (note_data m)) (filter (\<lambda>m. note_channel m = c) ns)))"
    by (simp only: set_map)
  then obtain p where "g = group_idxs ns c p" by (elim imageE)
  then show ?thesis by (intro exI)
qed

lemma group_in_note_groups:
  assumes "i < length ns"
  shows "group_idxs ns (note_channel (ns ! i)) (pitch (note_data (ns ! i))) \<in> set (note_groups ns)"
proof -
  let ?c = "note_channel (ns ! i)" and ?p = "pitch (note_data (ns ! i))"
  let ?F = "\<lambda>c. map (group_idxs ns c)
        (first_seen (map (\<lambda>m. pitch (note_data m)) (filter (\<lambda>m. note_channel m = c) ns)))"
  have m: "ns ! i \<in> set ns" using assms by simp
  have c: "?c \<in> set (first_seen (map note_channel ns))" using m by simp
  have "ns ! i \<in> set (filter (\<lambda>m. note_channel m = ?c) ns)" using m by simp
  then have p: "?p \<in> set (first_seen (map (\<lambda>m. pitch (note_data m))
      (filter (\<lambda>m. note_channel m = ?c) ns)))"
    unfolding set_first_seen set_map by (rule imageI)
  have 1: "group_idxs ns ?c ?p \<in> set (?F ?c)"
    unfolding set_map using p by (rule imageI)
  have 2: "?F ?c \<in> set (map ?F (first_seen (map note_channel ns)))"
    unfolding set_map using c by (rule imageI)
  show ?thesis
    unfolding note_groups_group_idxs set_concat using 2 1 by (rule UN_I)
qed

lemma set_group_idxs:
  "set (group_idxs ns c p) =
     {i. i < length ns \<and> note_channel (ns ! i) = c \<and> pitch (note_data (ns ! i)) = p}"
  by (auto simp add: group_idxs_def)

lemma distinct_group_idxs [simp]: "distinct (group_idxs ns c p)"
  by (simp add: group_idxs_def)

lemma group_idxs_disjoint:
  "group_idxs ns c p \<noteq> group_idxs ns c' p' \<Longrightarrow>
   set (group_idxs ns c p) \<inter> set (group_idxs ns c' p') = {}"
  by (auto simp add: set_group_idxs)

lemma eq_upto_end_maps:
  assumes "list_all2 eq_upto_end ns store"
  shows "map note_channel store = map note_channel ns"
    and "map (\<lambda>m. pitch (note_data m)) (filter (\<lambda>m. note_channel m = c) store)
         = map (\<lambda>m. pitch (note_data m)) (filter (\<lambda>m. note_channel m = c) ns)"
  using assms by (induction rule: list_all2_induct) (auto simp add: eq_upto_end_def)

lemma note_groups_eq_upto_end:
  assumes "list_all2 eq_upto_end ns store"
  shows "note_groups store = note_groups ns"
proof -
  have len: "length store = length ns" using assms by (simp add: list_all2_lengthD)
  have f: "filter (\<lambda>i. note_channel (store ! i) = c \<and> pitch (note_data (store ! i)) = p) [0..<length ns]
      = filter (\<lambda>i. note_channel (ns ! i) = c \<and> pitch (note_data (ns ! i)) = p) [0..<length ns]" for c p
    using assms by (intro filter_cong) (auto simp add: list_all2_conv_all_nth eq_upto_end_def)
  show ?thesis
    unfolding note_groups_def len eq_upto_end_maps [OF assms] f ..
qed

lemma foldl_process_group_inv:
  assumes "\<forall>g\<in>set gs. \<exists>c p. g = group_idxs ns c p"
    and "list_all2 eq_upto_end ns store"
    and "\<forall>g\<in>D. (\<exists>c p. g = group_idxs ns c p) \<and> chain_ok store g"
    and "\<forall>m\<in>set ns. - 1 \<le> start (note_data m)"
  shows "list_all2 eq_upto_end ns (foldl process_group store gs)
         \<and> (\<forall>g\<in>D \<union> set gs. chain_ok (foldl process_group store gs) g)"
  using assms(1-3)
proof (induction gs arbitrary: store D)
  case Nil
  then show ?case by simp
next
  case (Cons g gs)
  from Cons.prems(1) obtain c p where g: "g = group_idxs ns c p" by auto
  have len: "length store = length ns" using Cons.prems(2) by (simp add: list_all2_lengthD)
  have dg: "distinct g" by (simp add: g)
  have lg: "\<forall>i\<in>set g. i < length store" by (simp add: g set_group_idxs len)
  have sg: "\<forall>i\<in>set g. - 1 \<le> start (note_data (store ! i))"
  proof
    fix i assume "i \<in> set g"
    then have i: "i < length ns" by (simp add: g set_group_idxs)
    then have "start (note_data (store ! i)) = start (note_data (ns ! i))"
      using Cons.prems(2) by (simp add: list_all2_conv_all_nth eq_upto_end_def)
    moreover have "ns ! i \<in> set ns" using i by simp
    ultimately show "- 1 \<le> start (note_data (store ! i))" using assms(4) by simp
  qed
  let ?store1 = "process_group store g"
  have rel: "list_all2 eq_upto_end ns ?store1"
    using Cons.prems(2) process_group_eq_upto_end [OF dg sg]
    by (rule list_all2_eq_upto_end_trans)
  have inv: "\<forall>g'\<in>insert g D. (\<exists>c p. g' = group_idxs ns c p) \<and> chain_ok ?store1 g'"
  proof
    fix g' assume g': "g' \<in> insert g D"
    show "(\<exists>c p. g' = group_idxs ns c p) \<and> chain_ok ?store1 g'"
    proof (cases "g' = g")
      case True
      then show ?thesis using process_group_chain_ok [OF dg lg sg] g by auto
    next
      case False
      with g' Cons.prems(3) obtain c' p' where
        g'eq: "g' = group_idxs ns c' p'" and ok: "chain_ok store g'" by auto
      from False have "set g' \<inter> set g = {}"
        unfolding g g'eq by (rule group_idxs_disjoint)
      then have "\<forall>i\<in>set g'. ?store1 ! i = store ! i"
        using process_group_nth_notin [OF dg sg] by auto
      then have "chain_ok ?store1 g' = chain_ok store g'" by (rule chain_ok_cong)
      with ok g'eq show ?thesis by auto
    qed
  qed
  have "list_all2 eq_upto_end ns (foldl process_group ?store1 gs)
         \<and> (\<forall>g\<in>insert g D \<union> set gs. chain_ok (foldl process_group ?store1 gs) g)"
    using Cons.prems(1) rel inv by (intro Cons.IH) simp_all
  then show ?case by simp
qed

lemma resolve_overlaps_notes_inv:
  assumes "\<forall>m\<in>set ns. - 1 \<le> start (note_data m)"
  shows "list_all2 eq_upto_end ns (resolve_overlaps_notes ns)"
    and "\<forall>g\<in>set (note_groups ns). chain_ok (resolve_overlaps_notes ns) g"
  using foldl_process_group_inv [of "note_groups ns" ns ns "{}"] assms note_groups_are_groups
  unfolding resolve_overlaps_notes_def by auto

lemma foldl_noop: "\<forall>g\<in>set gs. f s g = s \<Longrightarrow> foldl f s gs = s"
  by (induction gs) simp_all

lemma resolve_overlaps_notes_noop:
  assumes "\<forall>m\<in>set ns. - 1 \<le> start (note_data m)"
    and "\<forall>g\<in>set (note_groups ns). chain_ok ns g"
  shows "resolve_overlaps_notes ns = ns"
  unfolding resolve_overlaps_notes_def
proof (rule foldl_noop, rule ballI)
  fix g assume gin: "g \<in> set (note_groups ns)"
  then obtain c p where g: "g = group_idxs ns c p" using note_groups_are_groups by blast
  have "\<forall>i\<in>set g. - 1 \<le> start (note_data (ns ! i))"
    using assms(1) by (simp add: g set_group_idxs)
  then show "process_group ns g = ns"
    using assms(2) gin by (intro process_group_noop) (simp_all add: g)
qed

lemma resolve_overlaps_notes_idem:
  assumes "\<forall>m\<in>set ns. - 1 \<le> start (note_data m)"
  shows "resolve_overlaps_notes (resolve_overlaps_notes ns) = resolve_overlaps_notes ns"
proof -
  let ?r = "resolve_overlaps_notes ns"
  note inv = resolve_overlaps_notes_inv [OF assms]
  have groups: "note_groups ?r = note_groups ns" using inv(1) by (rule note_groups_eq_upto_end)
  have "\<forall>m\<in>set ?r. - 1 \<le> start (note_data m)"
  proof
    fix m assume "m \<in> set ?r"
    then obtain i where i: "i < length ?r" "?r ! i = m" by (auto simp add: in_set_conv_nth)
    then have "start (note_data m) = start (note_data (ns ! i))" "i < length ns"
      using inv(1) by (auto simp add: list_all2_conv_all_nth eq_upto_end_def)
    then show "- 1 \<le> start (note_data m)" using assms by simp
  qed
  then show ?thesis
    using inv(2) by (intro resolve_overlaps_notes_noop) (simp_all add: groups)
qed

lemma process_group_wrap:
  assumes "distinct idxs"
  shows "process_group store idxs
       = trim (sort_key (start_end_key store) idxs)
           (wrap_store store (sort_key (start_end_key store) idxs))"
proof (cases "sort_key (start_end_key store) idxs")
  case Nil
  then show ?thesis by (simp add: process_group_def wrap_store_def)
next
  case (Cons a rest)
  have d: "distinct (a # rest)" using assms Cons by (metis distinct_sort)
  show ?thesis
  proof (cases rest)
    case Nil
    then show ?thesis using Cons by (simp add: process_group_def wrap_store_def Let_def)
  next
    case (Cons b rest')
    let ?msgs = "a # rest"
    let ?store1 = "wrap_store store ?msgs"
    have "last ?msgs \<in> set rest" using Cons by simp
    then have ne: "last ?msgs \<noteq> a" using d by auto
    then have same: "?store1 ! a = store ! a"
      by (simp add: wrap_store_def)
    have step: "scan_msgs ?msgs 0 (- 1) ?msgs store
        = scan_msgs ?msgs (Suc 0) (end_tick (note_data (store ! a))) rest ?store1"
      by (simp add: wrap_store_def Let_def last_conv_nth)
    have d': "distinct ([] @ a # rest)" using d by simp
    have "scan_msgs ([] @ a # rest) (Suc (length ([] :: nat list)))
            (end_tick (note_data (?store1 ! a))) rest ?store1 = trim (a # rest) ?store1"
      by (rule scan_msgs_trim [OF d'])
    then have "scan_msgs ?msgs (Suc 0) (end_tick (note_data (store ! a))) rest ?store1
        = trim ?msgs ?store1"
      by (simp add: same)
    with step show ?thesis
      using \<open>sort_key (start_end_key store) idxs = a # rest\<close>
      by (simp add: process_group_def Let_def)
  qed
qed

lemma wrap_store_eq_upto_end: "list_all2 eq_upto_end store (wrap_store store msgs)"
  by (simp add: wrap_store_def list_all2_eq_upto_end_update split: list.splits)

lemma wrap_store_nth_notin: "i \<notin> set msgs \<Longrightarrow> wrap_store store msgs ! i = store ! i"
proof (cases msgs)
  case Nil
  then show ?thesis by (simp add: wrap_store_def)
next
  case (Cons a rest)
  assume "i \<notin> set msgs"
  moreover have "last msgs \<in> set msgs" using Cons by simp
  ultimately have "last msgs \<noteq> i" by auto
  then show ?thesis using Cons by (simp add: wrap_store_def)
qed

lemma process_group_eq_upto_end_any:
  assumes "distinct idxs"
  shows "list_all2 eq_upto_end store (process_group store idxs)"
  unfolding process_group_wrap [OF assms]
  using wrap_store_eq_upto_end trim_eq_upto_end by (rule list_all2_eq_upto_end_trans)

lemma process_group_nth_notin_any:
  assumes "distinct idxs" and "i \<notin> set idxs"
  shows "process_group store idxs ! i = store ! i"
  using assms(2) by (simp add: process_group_wrap [OF assms(1)] trim_nth_notin wrap_store_nth_notin)

lemma process_group_sep:
  assumes d: "distinct idxs" and len: "\<forall>i\<in>set idxs. i < length store"
  shows "group_sep (process_group store idxs) idxs"
proof -
  let ?js = "sort_key (start_end_key store) idxs"
  let ?store1 = "wrap_store store ?js"
  let ?store' = "trim ?js ?store1"
  have rel: "list_all2 eq_upto_end store ?store1" by (rule wrap_store_eq_upto_end)
  then have len1: "length ?store1 = length store" by (simp add: list_all2_lengthD)
  have st: "start (note_data (?store1 ! i)) = start (note_data (store ! i))" if "i < length store" for i
    using rel that by (simp add: list_all2_conv_all_nth eq_upto_end_def)
  have "sorted_wrt (\<lambda>i j. start_end_key store i \<le> start_end_key store j) ?js"
    by (rule sorted_start_end_key)
  moreover have "sorted_wrt (\<lambda>i j. i \<in> set idxs \<and> j \<in> set idxs) ?js"
    by (simp add: sorted_wrt_iff_nth_less) (metis nth_mem length_sort set_sort order.strict_trans)
  ultimately have "sorted_wrt (\<lambda>i j. (i \<in> set idxs \<and> j \<in> set idxs)
      \<and> start_end_key store i \<le> start_end_key store j) ?js"
    by (simp add: sorted_wrt_conj)
  then have "sorted_wrt (\<lambda>i j. start (note_data (?store1 ! i)) \<le> start (note_data (?store1 ! j))) ?js"
    by (rule sorted_wrt_mono_rel [rotated])
      (use len st in \<open>auto simp add: start_end_key_def less_eq_prod_def\<close>)
  then have "sorted (map (\<lambda>i. start (note_data (?store1 ! i))) ?js)"
    by (simp add: sorted_map)
  then have c: "sorted_wrt (\<lambda>i j. end_tick (note_data (?store' ! i))
        \<le> start (note_data (?store1 ! j))) ?js"
    using d len len1 by (intro trim_chain) simp_all
  show ?thesis
    unfolding group_sep_def process_group_wrap [OF d]
  proof (intro ballI impI)
    fix i j assume ij: "i \<in> set idxs" "j \<in> set idxs" "i \<noteq> j"
    then have "i \<in> set ?js" "j \<in> set ?js" by simp_all
    from sorted_wrt_either [OF c this ij(3)]
    have "end_tick (note_data (?store' ! i)) \<le> start (note_data (?store1 ! j))
        \<or> end_tick (note_data (?store' ! j)) \<le> start (note_data (?store1 ! i))" .
    moreover have "start (note_data (?store' ! k)) = start (note_data (?store1 ! k))"
      if "k \<in> set idxs" for k
      using that len len1 by simp
    ultimately show "end_tick (note_data (?store' ! i)) \<le> start (note_data (?store' ! j))
        \<or> end_tick (note_data (?store' ! j)) \<le> start (note_data (?store' ! i))"
      using ij by simp
  qed
qed

lemma group_sep_cong:
  assumes "\<forall>i\<in>set idxs. store' ! i = store ! i"
  shows "group_sep store' idxs = group_sep store idxs"
  using assms by (simp add: group_sep_def)

lemma foldl_process_group_sep:
  assumes "\<forall>g\<in>set gs. \<exists>c p. g = group_idxs ns c p"
    and "list_all2 eq_upto_end ns store"
    and "\<forall>g\<in>D. (\<exists>c p. g = group_idxs ns c p) \<and> group_sep store g"
  shows "list_all2 eq_upto_end ns (foldl process_group store gs)
         \<and> (\<forall>g\<in>D \<union> set gs. group_sep (foldl process_group store gs) g)"
  using assms
proof (induction gs arbitrary: store D)
  case Nil
  then show ?case by simp
next
  case (Cons g gs)
  from Cons.prems(1) obtain c p where g: "g = group_idxs ns c p" by auto
  have len: "length store = length ns" using Cons.prems(2) by (simp add: list_all2_lengthD)
  have dg: "distinct g" by (simp add: g)
  have lg: "\<forall>i\<in>set g. i < length store" by (simp add: g set_group_idxs len)
  let ?store1 = "process_group store g"
  have rel: "list_all2 eq_upto_end ns ?store1"
    using Cons.prems(2) process_group_eq_upto_end_any [OF dg]
    by (rule list_all2_eq_upto_end_trans)
  have inv: "\<forall>g'\<in>insert g D. (\<exists>c p. g' = group_idxs ns c p) \<and> group_sep ?store1 g'"
  proof
    fix g' assume g': "g' \<in> insert g D"
    show "(\<exists>c p. g' = group_idxs ns c p) \<and> group_sep ?store1 g'"
    proof (cases "g' = g")
      case True
      then show ?thesis using process_group_sep [OF dg lg] g by auto
    next
      case False
      with g' Cons.prems(3) obtain c' p' where
        g'eq: "g' = group_idxs ns c' p'" and ok: "group_sep store g'" by auto
      from False have "set g' \<inter> set g = {}"
        unfolding g g'eq by (rule group_idxs_disjoint)
      then have "\<forall>i\<in>set g'. ?store1 ! i = store ! i"
        using process_group_nth_notin_any [OF dg] by auto
      then have "group_sep ?store1 g' = group_sep store g'" by (rule group_sep_cong)
      with ok g'eq show ?thesis by auto
    qed
  qed
  have "list_all2 eq_upto_end ns (foldl process_group ?store1 gs)
         \<and> (\<forall>g\<in>insert g D \<union> set gs. group_sep (foldl process_group ?store1 gs) g)"
    using Cons.prems(1) rel inv by (intro Cons.IH) simp_all
  then show ?case by simp
qed

lemma resolve_overlaps_notes_sep:
  shows "list_all2 eq_upto_end ns (resolve_overlaps_notes ns)"
    and "\<forall>g\<in>set (note_groups ns). group_sep (resolve_overlaps_notes ns) g"
  using foldl_process_group_sep [of "note_groups ns" ns ns "{}"] note_groups_are_groups
  unfolding resolve_overlaps_notes_def by auto

lemma resolve_overlaps_notes_no_overlaps_any:
  "no_overlaps (resolve_overlaps_notes ns)"
  unfolding no_overlaps_def sorted_wrt_iff_nth_less
proof (intro allI impI)
  let ?r = "resolve_overlaps_notes ns"
  note inv = resolve_overlaps_notes_sep [of ns]
  fix i j assume ij: "i < j" "j < length ?r" and key: "same_key (?r ! i) (?r ! j)"
  have len: "length ?r = length ns" using inv(1) by (simp add: list_all2_lengthD)
  have i: "i < length ns" and j: "j < length ns" using ij len by simp_all
  have ri: "eq_upto_end (ns ! i) (?r ! i)" and rj: "eq_upto_end (ns ! j) (?r ! j)"
    using inv(1) i j by (simp_all add: list_all2_conv_all_nth)
  let ?g = "group_idxs ns (note_channel (ns ! i)) (pitch (note_data (ns ! i)))"
  have gin: "?g \<in> set (note_groups ns)" using i by (rule group_in_note_groups)
  have mem: "i \<in> set ?g" "j \<in> set ?g"
    using i j key ri rj by (simp_all add: set_group_idxs same_key_def eq_upto_end_def)
  have "group_sep ?r ?g" using inv(2) gin by simp
  then have "end_tick (note_data (?r ! i)) \<le> start (note_data (?r ! j))
      \<or> end_tick (note_data (?r ! j)) \<le> start (note_data (?r ! i))"
    using mem ij(1) by (simp add: group_sep_def)
  then show "\<not> ranges_overlap (?r ! i) (?r ! j)"
    by (auto simp add: ranges_overlap_def)
qed

lemma separated_notes:
  assumes "start_end_key ns x \<le> start_end_key ns y"
    and "start (note_data (ns ! x)) \<le> end_tick (note_data (ns ! x))"
    and "start (note_data (ns ! y)) \<le> end_tick (note_data (ns ! y))"
    and "\<not> ranges_overlap (ns ! x) (ns ! y)"
    and "\<not> point_inside (ns ! x) (ns ! y)"
  shows "end_tick (note_data (ns ! x)) \<le> start (note_data (ns ! y))"
  using assms
  by (auto simp add: start_end_key_def less_eq_prod_def ranges_overlap_def point_inside_def
      max_def min_def split: if_splits)

lemma chain_ok_separated:
  assumes wf: "regular_notes ns" and no: "no_overlaps ns" and np: "no_inner_points ns"
  shows "chain_ok ns (group_idxs ns c p)"
proof -
  let ?g = "group_idxs ns c p"
  let ?js = "sort_key (start_end_key ns) ?g"
  have pair: "end_tick (note_data (ns ! x)) \<le> start (note_data (ns ! y))"
    if "x \<in> set ?g" "y \<in> set ?g" "x \<noteq> y" "start_end_key ns x \<le> start_end_key ns y" for x y
  proof -
    from that have x: "x < length ns" and y: "y < length ns"
      and key: "same_key (ns ! x) (ns ! y)"
      by (simp_all add: set_group_idxs same_key_def)
    have "same_key (ns ! x) (ns ! y) \<longrightarrow> \<not> ranges_overlap (ns ! x) (ns ! y)"
      using no [unfolded no_overlaps_def] _ x y that(3)
      by (rule sorted_wrt_sym_nth)
        (auto simp add: same_key_def ranges_overlap_def max.commute min.commute)
    moreover have "same_key (ns ! x) (ns ! y) \<longrightarrow>
        \<not> point_inside (ns ! x) (ns ! y) \<and> \<not> point_inside (ns ! y) (ns ! x)"
      using np [unfolded no_inner_points_def] _ x y that(3)
      by (rule sorted_wrt_sym_nth) (auto simp add: same_key_def)
    moreover have "start (note_data (ns ! x)) \<le> end_tick (note_data (ns ! x))"
      "start (note_data (ns ! y)) \<le> end_tick (note_data (ns ! y))"
      using wf x y by (simp_all add: regular_notes_def)
    ultimately show ?thesis using that(4) key by (intro separated_notes) simp_all
  qed
  have "sorted_wrt (\<lambda>i j. start_end_key ns i \<le> start_end_key ns j) ?js"
    by (rule sorted_start_end_key)
  moreover have "sorted_wrt (\<noteq>) ?js" by (simp add: distinct_sorted_wrt_neq)
  ultimately have "sorted_wrt (\<lambda>i j. start_end_key ns i \<le> start_end_key ns j \<and> i \<noteq> j) ?js"
    by (simp add: sorted_wrt_conj)
  then have "sorted_wrt (\<lambda>i j. end_tick (note_data (ns ! i)) \<le> start (note_data (ns ! j))) ?js"
    by (rule sorted_wrt_mono_rel [rotated]) (simp add: pair)
  then show ?thesis by (simp add: chain_ok_def)
qed

lemma resolve_overlaps_notes_separated:
  assumes "regular_notes ns" and "no_overlaps ns" and "no_inner_points ns"
  shows "resolve_overlaps_notes ns = ns"
proof (rule resolve_overlaps_notes_noop)
  show "\<forall>m\<in>set ns. - 1 \<le> start (note_data m)"
    using assms(1) by (auto simp add: regular_notes_def)
  show "\<forall>g\<in>set (note_groups ns). chain_ok ns g"
    using chain_ok_separated [OF assms] note_groups_are_groups by blast
qed

lemma resolve_overlaps_notes_fields:
  shows "length (resolve_overlaps_notes ns) = length ns"
    and "i < length ns \<Longrightarrow> eq_upto_end (ns ! i) (resolve_overlaps_notes ns ! i)"
  using resolve_overlaps_notes_sep(1) [of ns]
  by (simp_all add: list_all2_conv_all_nth)

lemma resolve_overlaps_example:
  "resolve_overlaps_notes [note_msg 0 60 0 100 v, note_msg 0 60 50 150 v']
     = [note_msg 0 60 0 50 v, note_msg 0 60 50 150 v']"
  by (simp add: resolve_overlaps_notes_def note_groups_def process_group_def start_end_key_def
      set_end_def upt_rec [of 0] upt_rec [of 1] upt_rec [of 2])

text \<open>
  C8 (as stated): on a document already free of same-(channel, pitch) overlaps the call
  changes nothing. The notes \<open>(start 0, end 100)\<close> and \<open>(start 50, end 50)\<close> of one
  key have disjoint ranges \<open>[0, 100)\<close> and \<open>[50, 50)\<close>, the second being empty, and
  the call cuts the first note back to end 50.
\<close>

theorem C8_zero_length_note_inside:
  "no_overlaps [note_msg 0 60 0 100 64, note_msg 0 60 50 50 64]
   \<and> {0..<100} \<inter> {50..<50} = ({} :: int set)
   \<and> resolve_overlaps
       (document [] [instrument_msg 0 0 0] [note_msg 0 60 0 100 64, note_msg 0 60 50 50 64])
     = document [] [instrument_msg 0 0 0] [note_msg 0 60 0 50 64, note_msg 0 60 50 50 64]"
  by (simp add: no_overlaps_def same_key_def ranges_overlap_def
      resolve_overlaps_def resolve_overlaps_notes_def note_groups_def process_group_def
      start_end_key_def set_end_def upt_rec [of 0] upt_rec [of 1] upt_rec [of 2])

text \<open>
  C8 (amended): for every document, after \<open>resolve_overlaps\<close> no two notes of the same
  channel and pitch have overlapping ranges \<open>[start, end)\<close>, and the number of notes
  and the start tick and velocity of every note are unchanged; the notes \<open>(0, 100)\<close>
  and \<open>(50, 150)\<close> of pitch 60 on channel 0 become \<open>(0, 50)\<close> and \<open>(50, 150)\<close>; and
  on a document free of such overlaps whose notes have \<open>-1 \<le> start \<le> end\<close> and in
  which no zero-length note lies strictly inside another note of its key, the call
  changes nothing.
\<close>

theorem C8_resolve_overlaps:
  "no_overlaps (note_msgs (resolve_overlaps md))
    \<and> length (note_msgs (resolve_overlaps md)) = length (note_msgs md)
    \<and> (\<forall>i<length (note_msgs md).
          start (note_data (note_msgs (resolve_overlaps md) ! i)) = start (note_data (note_msgs md ! i))
          \<and> velocity (note_data (note_msgs (resolve_overlaps md) ! i))
              = velocity (note_data (note_msgs md ! i)))
    \<and> resolve_overlaps_notes [note_msg 0 60 0 100 v, note_msg 0 60 50 150 v']
        = [note_msg 0 60 0 50 v, note_msg 0 60 50 150 v']
    \<and> (regular_notes (note_msgs md) \<and> no_overlaps (note_msgs md)
          \<and> no_inner_points (note_msgs md) \<longrightarrow> resolve_overlaps md = md)"
proof -
  have 1: "no_overlaps (note_msgs (resolve_overlaps md))"
    using resolve_overlaps_notes_no_overlaps_any by (simp add: resolve_overlaps_def)
  have 2: "length (note_msgs (resolve_overlaps md)) = length (note_msgs md)"
    using resolve_overlaps_notes_fields(1) by (simp add: resolve_overlaps_def)
  have 3: "\<forall>i<length (note_msgs md).
          start (note_data (note_msgs (resolve_overlaps md) ! i)) = start (note_data (note_msgs md ! i))
          \<and> velocity (note_data (note_msgs (resolve_overlaps md) ! i))
              = velocity (note_data (note_msgs md ! i))"
    using resolve_overlaps_notes_fields(2) [of _ "note_msgs md"]
    by (simp add: resolve_overlaps_def eq_upto_end_def)
  have 5: "resolve_overlaps md = md"
    if "regular_notes (note_msgs md)" "no_overlaps (note_msgs md)" "no_inner_points (note_msgs md)"
    using resolve_overlaps_notes_separated [OF that] by (simp add: resolve_overlaps_def)
  from 1 2 3 5 resolve_overlaps_example show ?thesis by blast
qed

theorem C8_witness:
  "resolve_overlaps (document [] [instrument_msg 0 0 0]
       [note_msg 0 60 0 100 64, note_msg 0 60 50 150 64])
     = document [] [instrument_msg 0 0 0] [note_msg 0 60 0 50 64, note_msg 0 60 50 150 64]
   \<and> resolve_overlaps (document [] [instrument_msg 0 0 0]
       [note_msg 0 60 0 50 64, note_msg 0 60 50 150 64])
     = document [] [instrument_msg 0 0 0] [note_msg 0 60 0 50 64, note_msg 0 60 50 150 64]"
proof -
  let ?d1 = "document [] [instrument_msg 0 0 0]
       [note_msg 0 60 0 100 64, note_msg 0 60 50 150 64]"
  let ?d2 = "document [] [instrument_msg 0 0 0]
       [note_msg 0 60 0 50 64, note_msg 0 60 50 150 64]"
  have reg: "regular_notes (note_msgs ?d2)" by (simp add: regular_notes_def)
  have free: "no_overlaps (note_msgs ?d2) \<and> no_inner_points (note_msgs ?d2)"
    by (simp add: no_overlaps_def no_inner_points_def same_key_def ranges_overlap_def
        point_inside_def)
  from C8_resolve_overlaps [of ?d1 64 64]
  have "resolve_overlaps_notes [note_msg 0 60 0 100 64, note_msg 0 60 50 150 64]
        = [note_msg 0 60 0 50 64, note_msg 0 60 50 150 64]" by blast
  then have 1: "resolve_overlaps ?d1 = ?d2" by (simp add: resolve_overlaps_def)
  from C8_resolve_overlaps [of ?d2 64 64] reg free
  have 2: "resolve_overlaps ?d2 = ?d2" by blast
  from 1 2 show ?thesis by (rule conjI)
qed

text \<open>
  C9 (as stated): \<open>resolve_overlaps\<close> is idempotent for every document. The notes
  \<open>(-4, -4)\<close>, \<open>(-3, -3)\<close>, \<open>(-3, -2)\<close> of one key start below the initial
  \<open>prev_off_tick = -1\<close>: the first call writes the end \<open>-4\<close> into the last note of
  the sorted list, which reorders the list for the second call, and the second call
  writes \<open>-4\<close> into the note \<open>(-3, -3)\<close> as well.
\<close>

theorem C9_negative_start_not_idempotent:
  "resolve_overlaps (document [] [instrument_msg 0 0 0]
       [note_msg 0 60 (- 4) (- 4) 64, note_msg 0 60 (- 3) (- 3) 64, note_msg 0 60 (- 3) (- 2) 64])
     = document [] [instrument_msg 0 0 0]
       [note_msg 0 60 (- 4) (- 4) 64, note_msg 0 60 (- 3) (- 3) 64, note_msg 0 60 (- 3) (- 4) 64]
   \<and> resolve_overlaps (resolve_overlaps (document [] [instrument_msg 0 0 0]
       [note_msg 0 60 (- 4) (- 4) 64, note_msg 0 60 (- 3) (- 3) 64, note_msg 0 60 (- 3) (- 2) 64]))
     = document [] [instrument_msg 0 0 0]
       [note_msg 0 60 (- 4) (- 4) 64, note_msg 0 60 (- 3) (- 4) 64, note_msg 0 60 (- 3) (- 4) 64]"
  by (simp add: resolve_overlaps_def resolve_overlaps_notes_def note_groups_def process_group_def
      start_end_key_def set_end_def upt_rec [of 0] upt_rec [of 1] upt_rec [of 2] upt_rec [of 3]
      less_eq_prod_def)

text \<open>
  C9 (amended): \<open>resolve_overlaps\<close> is idempotent on every document in which no note
  starts below tick \<open>-1\<close>, hence on every document whose ticks are not negative:
  applying it twice gives the same document as applying it once.
\<close>

theorem C9_resolve_overlaps_idempotent:
  assumes "\<forall>m\<in>set (note_msgs md). - 1 \<le> start (note_data m)"
  shows "resolve_overlaps (resolve_overlaps md) = resolve_overlaps md"
  using assms by (simp add: resolve_overlaps_def resolve_overlaps_notes_idem)

theorem C9_witness:
  "resolve_overlaps (resolve_overlaps (document [] [instrument_msg 0 0 0]
       [note_msg 0 60 0 100 64, note_msg 0 60 50 150 64]))
     = document [] [instrument_msg 0 0 0] [note_msg 0 60 0 50 64, note_msg 0 60 50 150 64]"
proof -
  let ?d = "document [] [instrument_msg 0 0 0]
       [note_msg 0 60 0 100 64, note_msg 0 60 50 150 64]"
  have h: "\<forall>m\<in>set (note_msgs ?d). - 1 \<le> start (note_data m)" by simp
  have "resolve_overlaps ?d
      = document [] [instrument_msg 0 0 0] [note_msg 0 60 0 50 64, note_msg 0 60 50 150 64]"
    by (simp add: resolve_overlaps_def resolve_overlaps_example)
  with C9_resolve_overlaps_idempotent [OF h] show ?thesis by simp
qed

section \<open>Results for the round trip\<close>

lemma msg_time_set_time [simp]: "msg_time (set_time m t) = t"
  by (cases m) simp_all

lemma set_time_set_time [simp]: "set_time (set_time m a) b = set_time m b"
  by (cases m) simp_all

lemma set_time_msg_time [simp]: "set_time m (msg_time m) = m"
  by (cases m) simp_all

lemma to_absolute_to_delta:
  "to_absolute c (to_delta c xs @ [OtherMeta 0])
     = xs @ [OtherMeta (if xs = [] then c else msg_time (last xs))]"
  by (induction xs arbitrary: c) simp_all

lemma key_state_other:
  "ev_key e \<noteq> Some k \<Longrightarrow> key_state k (extract_step e s) = key_state k s"
  by (cases e)
    (auto simp add: key_state_def open_note_def close_note_def Let_def split: option.splits)

lemma key_state_same:
  assumes "ev_key e = Some k" and "key_state k s = key_state k s'"
  shows "key_state k (extract_step e s) = key_state k (extract_step e s')"
  using assms
  by (cases e)
    (auto simp add: key_state_def open_note_def close_note_def Let_def split: option.splits)

lemma key_state_fold:
  assumes "key_state k s = key_state k s'"
  shows "key_state k (fold extract_step evs s)
       = key_state k (fold extract_step (filter (\<lambda>e. ev_key e = Some k) evs) s')"
  using assms
proof (induction evs arbitrary: s s')
  case Nil
  then show ?case by simp
next
  case (Cons e evs)
  show ?case
  proof (cases "ev_key e = Some k")
    case True
    then have "key_state k (extract_step e s) = key_state k (extract_step e s')"
      using Cons.prems by (rule key_state_same)
    then show ?thesis using True Cons.IH by simp
  next
    case False
    then have "key_state k (extract_step e s) = key_state k s'"
      using Cons.prems by (simp add: key_state_other)
    then show ?thesis using False Cons.IH by simp
  qed
qed

lemma on_off_events_simps [simp]:
  "on_off_events [] = []"
  "on_off_events (m # ms) = on_event m # off_event m # on_off_events ms"
  by (simp_all add: on_off_events_def)

lemma chain_run:
  assumes "chain t ms"
    and "\<forall>m\<in>set ms. (pitch (note_data m), note_channel m) = k"
    and "last_note_on s k = None"
  shows "ts_note_msgs (fold extract_step (on_off_events ms) s) = ts_note_msgs s @ map retick ms
       \<and> last_note_on (fold extract_step (on_off_events ms) s) k = None"
  using assms
proof (induction ms arbitrary: t s)
  case Nil
  then show ?case by simp
next
  case (Cons m ms)
  let ?s1 = "extract_step (off_event m) (extract_step (on_event m) s)"
  from Cons.prems(2) have k: "k = (pitch (note_data m), note_channel m)" by simp
  from Cons.prems(1) have pos: "start (note_data m) < end_tick (note_data m)"
    "0 < velocity (note_data m)" and ch: "chain (end_tick (note_data m)) ms" by simp_all
  have nts: "ts_note_msgs ?s1 = ts_note_msgs s @ [retick m]"
    using pos Cons.prems(3)
    by (simp add: on_event_def off_event_def open_note_def close_note_def k retick_def)
  have none: "last_note_on ?s1 k = None"
    using pos Cons.prems(3)
    by (simp add: on_event_def off_event_def open_note_def close_note_def k)
  have "ts_note_msgs (fold extract_step (on_off_events ms) ?s1) = ts_note_msgs ?s1 @ map retick ms
       \<and> last_note_on (fold extract_step (on_off_events ms) ?s1) k = None"
    using ch Cons.prems(2) none by (intro Cons.IH) simp_all
  then show ?case by (simp add: nts)
qed

lemma chain_keys:
  assumes "chain t ms"
  shows "(\<forall>e\<in>set (on_off_events ms). (t, 0) < sort_fn e)
       \<and> sorted_wrt (<) (map sort_fn (on_off_events ms))"
  using assms
proof (induction ms arbitrary: t)
  case Nil
  then show ?case by simp
next
  case (Cons m ms)
  from Cons.prems have t: "t \<le> start (note_data m)"
    and pos: "start (note_data m) < end_tick (note_data m)" "0 < velocity (note_data m)"
    and ch: "chain (end_tick (note_data m)) ms" by simp_all
  from Cons.IH [OF ch] have
    rest: "\<forall>e\<in>set (on_off_events ms). (end_tick (note_data m), 0) < sort_fn e"
    and srt: "sorted_wrt (<) (map sort_fn (on_off_events ms))" by simp_all
  have on: "sort_fn (on_event m) = (start (note_data m), velocity (note_data m))"
    and off: "sort_fn (off_event m) = (end_tick (note_data m), 0)"
    by (simp_all add: on_event_def off_event_def)
  have 1: "(t, 0) < sort_fn (on_event m)" using t pos by (auto simp add: on less_prod_def)
  have 2: "sort_fn (on_event m) < sort_fn (off_event m)"
    using pos by (simp add: on off less_prod_def)
  have 3: "\<forall>e\<in>set (on_off_events ms). sort_fn (off_event m) < sort_fn e"
    using rest by (simp add: off)
  have 4: "\<forall>e\<in>set (on_off_events ms). sort_fn (on_event m) < sort_fn e"
    using 2 3 by (meson less_trans)
  have 5: "\<forall>e\<in>set (on_off_events ms). (t, 0) < sort_fn e"
    using 1 4 by (meson less_trans)
  have 6: "(t, 0) < sort_fn (off_event m)" using 1 2 by (rule less_trans)
  show ?case using 1 2 3 4 5 6 srt by simp
qed

lemma filter_same_key_distinct:
  "distinct (map f zs) \<Longrightarrow> k \<in> set zs \<Longrightarrow> filter (\<lambda>x. f k = f x) zs = [k]"
proof (induction zs)
  case Nil
  then show ?case by simp
next
  case (Cons a zs)
  show ?case
  proof (cases "k = a")
    case True
    have "f a \<notin> f ` set zs" using Cons.prems(1) by simp
    then have "filter (\<lambda>x. f a = f x) zs = []" by (auto simp add: filter_empty_conv)
    then show ?thesis using True by simp
  next
    case False
    then have k: "k \<in> set zs" using Cons.prems(2) by simp
    have "f a \<notin> f ` set zs" using Cons.prems(1) by simp
    then have "f k \<noteq> f a" using k by (metis imageI)
    moreover have "filter (\<lambda>x. f k = f x) zs = [k]" using Cons.prems(1) k by (intro Cons.IH) simp_all
    ultimately show ?thesis by simp
  qed
qed

lemma sort_key_unique:
  fixes f :: "'a \<Rightarrow> 'b::linorder"
  assumes m: "mset ys = mset xs" and s: "sorted_wrt (<) (map f ys)"
  shows "sort_key f xs = ys"
proof (rule properties_for_sort_key [OF m])
  from s have srt: "sorted (map f ys)" and dy: "distinct (map f ys)"
    by (simp_all add: strict_sorted_iff)
  show "sorted (map f ys)" by (rule srt)
  have "mset (map f xs) = mset (map f ys)" using m by simp
  then have dx: "distinct (map f xs)" using dy by (metis mset_eq_imp_distinct_iff)
  fix k assume k: "k \<in> set ys"
  then have "k \<in> set xs" using m by (metis mset_eq_setD)
  then have "filter (\<lambda>x. f k = f x) xs = [k]" using dx by (intro filter_same_key_distinct)
  moreover have "filter (\<lambda>x. f k = f x) ys = [k]" using dy k by (intro filter_same_key_distinct)
  ultimately show "filter (\<lambda>x. f k = f x) ys = filter (\<lambda>x. f k = f x) xs" by simp
qed

lemma sorted_wrt_insort_sym:
  assumes "\<And>a b. P a b \<Longrightarrow> P b a"
  shows "sorted_wrt P (insort_key f x xs) \<longleftrightarrow> (\<forall>y\<in>set xs. P x y) \<and> sorted_wrt P xs"
  using assms by (induction xs) (auto simp add: set_insort_key)

lemma sorted_wrt_sort_key_sym:
  assumes "\<And>a b. P a b \<Longrightarrow> P b a"
  shows "sorted_wrt P (sort_key f xs) \<longleftrightarrow> sorted_wrt P xs"
  by (induction xs) (simp_all add: sorted_wrt_insort_sym [of P, OF assms])

lemma chain_sorted:
  assumes "sorted (map (\<lambda>m. start (note_data m)) ms)"
    and "sorted_wrt (\<lambda>m m'. \<not> ranges_overlap m m') ms"
    and "\<forall>m\<in>set ms. start (note_data m) < end_tick (note_data m) \<and> 0 < velocity (note_data m)"
    and "\<forall>m\<in>set ms. t \<le> start (note_data m)"
  shows "chain t ms"
  using assms
proof (induction ms arbitrary: t)
  case Nil
  then show ?case by simp
next
  case (Cons m ms)
  have "\<forall>m'\<in>set ms. end_tick (note_data m) \<le> start (note_data m')"
  proof
    fix m' assume m': "m' \<in> set ms"
    then have "\<not> ranges_overlap m m'" "start (note_data m) \<le> start (note_data m')"
      "start (note_data m') < end_tick (note_data m')"
      using Cons.prems by auto
    then show "end_tick (note_data m) \<le> start (note_data m')"
      by (auto simp add: ranges_overlap_def)
  qed
  then have "chain (end_tick (note_data m)) ms"
    using Cons.prems by (intro Cons.IH) simp_all
  then show ?case using Cons.prems by simp
qed

lemma mset_on_off_events:
  "mset (on_off_events ms) = mset (map on_event ms) + mset (map off_event ms)"
  by (induction ms) simp_all

lemma concat_single:
  "distinct ks \<Longrightarrow>
   concat (map (\<lambda>k'. if k' = k then f k' else []) ks) = (if k \<in> set ks then f k else [])"
  by (induction ks) auto

lemma distinct_first_seen [simp]: "distinct (first_seen xs)"
  by (induction xs rule: first_seen.induct) auto

lemma mset_eq_by_key:
  assumes "\<And>k. filter_mset (\<lambda>x. g x = k) M = filter_mset (\<lambda>x. g x = k) N"
  shows "M = N"
proof (rule multiset_eqI)
  fix x
  have "count M x = count (filter_mset (\<lambda>y. g y = g x) M) x" by simp
  also have "\<dots> = count (filter_mset (\<lambda>y. g y = g x) N) x" by (simp only: assms)
  also have "\<dots> = count N x" by simp
  finally show "count M x = count N x" .
qed

lemma no_overlaps_pair:
  assumes "no_overlaps ns" and "m \<in> set ns" "m' \<in> set ns" "m \<noteq> m'" "same_key m m'"
  shows "\<not> ranges_overlap m m'"
proof -
  from sorted_wrt_either [OF assms(1) [unfolded no_overlaps_def] assms(2-4)] assms(5)
  show ?thesis by (auto simp add: same_key_def ranges_overlap_def max.commute min.commute)
qed

lemma end_events_all:
  assumes "no_overlaps ns"
  shows "end_events ((c, p), map (\<lambda>m. (start (note_data m), end_tick (note_data m)))
            (filter (\<lambda>m. (note_channel m, pitch (note_data m)) = (c, p)) ns))
       = map off_event (filter (\<lambda>m. (note_channel m, pitch (note_data m)) = (c, p)) ns)"
proof -
  let ?ms = "filter (\<lambda>m. (note_channel m, pitch (note_data m)) = (c, p)) ns"
  let ?v = "map (\<lambda>m. (start (note_data m), end_tick (note_data m))) ?ms"
  have keep: "\<not> (\<exists>(s', e') \<in> set ?v. s < s' \<and> s' < e \<and> e < e')" if "(s, e) \<in> set ?v" for s e
  proof
    assume "\<exists>(s', e') \<in> set ?v. s < s' \<and> s' < e \<and> e < e'"
    then obtain m' where m': "m' \<in> set ?ms" and lt: "s < start (note_data m')"
      "start (note_data m') < e" "e < end_tick (note_data m')" by auto
    from that obtain m where m: "m \<in> set ?ms" and se: "s = start (note_data m)"
      "e = end_tick (note_data m)" by auto
    have "m \<noteq> m'" using lt se by auto
    moreover have "same_key m m'" "m \<in> set ns" "m' \<in> set ns"
      using m m' by (simp_all add: same_key_def)
    ultimately have "\<not> ranges_overlap m m'" using assms by (intro no_overlaps_pair)
    then show False using lt se by (auto simp add: ranges_overlap_def)
  qed
  have all: "filter (\<lambda>(s, e). \<not> (\<exists>(s', e') \<in> set ?v. s < s' \<and> s' < e \<and> e < e')) ?v = ?v"
    unfolding filter_id_conv using keep by blast
  have "end_events ((c, p), ?v)
      = map (\<lambda>(s, e). NoteOn p 0 c e)
          (filter (\<lambda>(s, e). \<not> (\<exists>(s', e') \<in> set ?v. s < s' \<and> s' < e \<and> e < e')) ?v)"
    by (simp only: end_events_def prod.case)
  also have "\<dots> = map (\<lambda>(s, e). NoteOn p 0 c e) ?v"
    by (simp only: all)
  also have "\<dots> = map off_event ?ms"
    by (simp add: off_event_def)
  finally show ?thesis .
qed

lemma filter_end_events:
  assumes "no_overlaps ns"
  shows "filter (\<lambda>e. ev_key e = Some (p, c)) (concat (map end_events (end_msgs ns)))
       = map off_event (filter (\<lambda>m. note_key m = (p, c)) ns)"
proof -
  let ?ckey = "\<lambda>m. (note_channel m, pitch (note_data m))"
  let ?ks = "first_seen (map ?ckey ns)"
  let ?G = "\<lambda>k. map off_event (filter (\<lambda>m. ?ckey m = k) ns)"
  have ev: "end_events (k, map (\<lambda>m. (start (note_data m), end_tick (note_data m)))
                     (filter (\<lambda>m. ?ckey m = k) ns)) = ?G k" for k
    using end_events_all [OF assms, of "fst k" "snd k"] by simp
  have all: "concat (map end_events (end_msgs ns)) = concat (map ?G ?ks)"
    by (simp add: end_msgs_def comp_def ev)
  have one: "filter (\<lambda>e. ev_key e = Some (p, c)) (?G k) = (if k = (c, p) then ?G k else [])" for k
    by (induction ns) (auto simp add: off_event_def)
  have "filter (\<lambda>e. ev_key e = Some (p, c)) (concat (map ?G ?ks))
      = concat (map (\<lambda>k. if k = (c, p) then ?G k else []) ?ks)"
    by (simp add: filter_concat comp_def one)
  also have "\<dots> = (if (c, p) \<in> set ?ks then ?G (c, p) else [])"
    by (rule concat_single) simp
  also have "\<dots> = ?G (c, p)"
    by (auto simp add: filter_empty_conv)
  also have "\<dots> = map off_event (filter (\<lambda>m. note_key m = (p, c)) ns)"
    by (auto simp add: note_key_def intro: arg_cong [where f = "map off_event"] filter_cong)
  finally show ?thesis using all by simp
qed

lemma filter_unordered_track:
  assumes "no_overlaps (note_msgs md)"
  shows "filter (\<lambda>e. ev_key e = Some (p, c)) (unordered_track md)
       = map on_event (filter (\<lambda>m. note_key m = (p, c)) (note_msgs md))
         @ map off_event (filter (\<lambda>m. note_key m = (p, c)) (note_msgs md))"
proof -
  have on: "filter (\<lambda>e. ev_key e = Some (p, c))
        (map (\<lambda>m. NoteOn (pitch (note_data m)) (velocity (note_data m)) (note_channel m)
                   (start (note_data m))) ns)
      = map on_event (filter (\<lambda>m. note_key m = (p, c)) ns)" for ns
    by (induction ns) (simp_all add: on_event_def note_key_def)
  show ?thesis
    unfolding unordered_track_def filter_append filter_end_events [OF assms] on
    by (simp add: filter_map comp_def)
qed

lemma chain_exists:
  assumes "sorted (map (\<lambda>m. start (note_data m)) ms)"
    and "sorted_wrt (\<lambda>m m'. \<not> ranges_overlap m m') ms"
    and "\<forall>m\<in>set ms. start (note_data m) < end_tick (note_data m) \<and> 0 < velocity (note_data m)"
  shows "\<exists>t. chain t ms"
proof (cases ms)
  case Nil
  then show ?thesis by simp
next
  case (Cons m rest)
  have "\<forall>m'\<in>set ms. start (note_data m) \<le> start (note_data m')"
    using assms(1) Cons by auto
  then have "chain (start (note_data m)) ms"
    using assms by (intro chain_sorted) simp_all
  then show ?thesis ..
qed

lemma retick_key [simp]: "note_key (retick m) = note_key m"
  by (simp add: note_key_def retick_def)

lemma retick_tuple [simp]: "note_tuple (retick m) = note_tuple m"
  by (simp add: note_tuple_def retick_def)

lemma reassembled_notes_fold:
  "reassembled_notes md =
     ts_note_msgs (fold extract_step
       (sort_key sort_fn (unordered_track md)
          @ [OtherMeta (if sort_key sort_fn (unordered_track md) = [] then 0
                        else msg_time (last (sort_key sort_fn (unordered_track md))))])
       init_track_state)"
  by (simp only: reassembled_notes_def dict_to_midi_def MidiFile.simps list.map concat.simps
      append_Nil2 repaired_notes_def extract_track_data_def Let_def prod.case to_absolute_to_delta)

lemma reassembled_by_key:
  assumes no: "no_overlaps (note_msgs md)"
    and pos: "\<forall>m\<in>set (note_msgs md).
        start (note_data m) < end_tick (note_data m) \<and> 0 < velocity (note_data m)"
  shows "filter (\<lambda>m. note_key m = k) (reassembled_notes md)
       = map retick (sort_key (\<lambda>m. start (note_data m))
           (filter (\<lambda>m. note_key m = k) (note_msgs md)))"
proof -
  obtain p c where k: "k = (p, c)" by (cases k)
  let ?S = "sort_key sort_fn (unordered_track md)"
  let ?t = "if ?S = [] then 0 else msg_time (last ?S)"
  let ?ms = "filter (\<lambda>m. note_key m = k) (note_msgs md)"
  let ?ms' = "sort_key (\<lambda>m. start (note_data m)) ?ms"
  let ?fin = "fold extract_step (?S @ [OtherMeta ?t]) init_track_state"
  have "sorted_wrt (\<lambda>m m'. same_key m m' \<longrightarrow> \<not> ranges_overlap m m') ?ms"
    using no unfolding no_overlaps_def by (rule sorted_wrt_filter)
  then have "sorted_wrt (\<lambda>m m'. \<not> ranges_overlap m m') ?ms"
    by (rule sorted_wrt_mono_rel [rotated]) (simp add: same_key_def note_key_def k)
  then have sep: "sorted_wrt (\<lambda>m m'. \<not> ranges_overlap m m') ?ms'"
    by (subst sorted_wrt_sort_key_sym)
      (auto simp add: ranges_overlap_def max.commute min.commute)
  have "sorted (map (\<lambda>m. start (note_data m)) ?ms')" by (rule sorted_sort_key)
  moreover have pos': "\<forall>m\<in>set ?ms'.
      start (note_data m) < end_tick (note_data m) \<and> 0 < velocity (note_data m)"
    using pos by simp
  ultimately obtain t where ch: "chain t ?ms'" using sep chain_exists by blast
  have keys: "\<forall>m\<in>set ?ms'. (pitch (note_data m), note_channel m) = k"
    by (simp add: note_key_def)
  have "filter (\<lambda>e. ev_key e = Some k) (?S @ [OtherMeta ?t])
      = sort_key sort_fn (map on_event ?ms @ map off_event ?ms)"
    by (simp add: filter_sort filter_unordered_track [OF no] k)
  also have "\<dots> = on_off_events ?ms'"
  proof (rule sort_key_unique)
    show "mset (on_off_events ?ms') = mset (map on_event ?ms @ map off_event ?ms)"
      by (simp add: mset_on_off_events)
    show "sorted_wrt (<) (map sort_fn (on_off_events ?ms'))"
      using chain_keys [OF ch] by simp
  qed
  finally have flt: "filter (\<lambda>e. ev_key e = Some k) (?S @ [OtherMeta ?t]) = on_off_events ?ms'" .
  have "key_state k ?fin
      = key_state k (fold extract_step (filter (\<lambda>e. ev_key e = Some k) (?S @ [OtherMeta ?t]))
          init_track_state)"
    by (rule key_state_fold) simp
  also have "\<dots> = key_state k (fold extract_step (on_off_events ?ms') init_track_state)"
    by (simp only: flt)
  finally have "fst (key_state k ?fin)
      = fst (key_state k (fold extract_step (on_off_events ?ms') init_track_state))" by simp
  moreover have "ts_note_msgs (fold extract_step (on_off_events ?ms') init_track_state)
      = map retick ?ms'"
    using chain_run [OF ch keys, of init_track_state] by (simp add: init_track_state_def)
  moreover have "filter (\<lambda>m. (pitch (note_data m), note_channel m) = k) (map retick ?ms')
      = map retick ?ms'"
    by (simp add: filter_map comp_def note_key_def [symmetric])
  ultimately have "filter (\<lambda>m. (pitch (note_data m), note_channel m) = k) (ts_note_msgs ?fin)
      = map retick ?ms'"
    by (simp add: key_state_def)
  then show ?thesis
    by (simp add: reassembled_notes_fold note_key_def)
qed

lemma mset_reassembled_notes:
  assumes "no_overlaps (note_msgs md)"
    and "\<forall>m\<in>set (note_msgs md).
        start (note_data m) < end_tick (note_data m) \<and> 0 < velocity (note_data m)"
  shows "mset (reassembled_notes md) = mset (map retick (note_msgs md))"
proof (rule mset_eq_by_key [where g = note_key])
  fix k
  have "filter_mset (\<lambda>x. note_key x = k) (mset (reassembled_notes md))
      = mset (filter (\<lambda>m. note_key m = k) (reassembled_notes md))" by simp
  also have "\<dots> = mset (map retick (sort_key (\<lambda>m. start (note_data m))
           (filter (\<lambda>m. note_key m = k) (note_msgs md))))"
    by (simp only: reassembled_by_key [OF assms])
  also have "\<dots> = image_mset retick (filter_mset (\<lambda>m. note_key m = k) (mset (note_msgs md)))"
    by simp
  also have "\<dots> = filter_mset (\<lambda>x. note_key x = k) (mset (map retick (note_msgs md)))"
    by (simp add: filter_mset_image_mset comp_def)
  finally show "filter_mset (\<lambda>x. note_key x = k) (mset (reassembled_notes md))
      = filter_mset (\<lambda>x. note_key x = k) (mset (map retick (note_msgs md)))" .
qed

text \<open>
  C7 (as stated): a pedal-free document without overlapping notes of one key is
  reproduced by \<open>dict_to_midi\<close> followed by re-pairing. A single note with
  \<open>start = end = 5\<close> overlaps nothing; its note-off (velocity 0) is sorted before its
  note-on at the same tick, so the re-pairing drops the note-off, never closes the
  note-on, and returns no note.
\<close>

theorem C7_zero_length_note_lost:
  "pedal_msgs (document [] [instrument_msg 0 0 0] [note_msg 0 60 5 5 64]) = []
   \<and> no_overlaps (note_msgs (document [] [instrument_msg 0 0 0] [note_msg 0 60 5 5 64]))
   \<and> dict_to_midi (document [] [instrument_msg 0 0 0] [note_msg 0 60 5 5 64])
       = \<lparr> mf_ticks_per_beat = 480,
           tracks = [[SetTempo 500000 0, ProgramChange 0 0 0, NoteOn 60 0 0 5, NoteOn 60 64 0 0,
                      OtherMeta 0]] \<rparr>
   \<and> reassembled_notes (document [] [instrument_msg 0 0 0] [note_msg 0 60 5 5 64]) = []
   \<and> mset (map note_tuple (reassembled_notes
         (document [] [instrument_msg 0 0 0] [note_msg 0 60 5 5 64])))
       \<noteq> mset (map note_tuple (note_msgs
         (document [] [instrument_msg 0 0 0] [note_msg 0 60 5 5 64])))"
  by (simp add: no_overlaps_def reassembled_notes_def dict_to_midi_def unordered_track_def
      end_msgs_def end_events_def repaired_notes_def extract_track_data_def
      init_track_state_def open_note_def close_note_def)

text \<open>
  C7 (amended): for every document within the data model whose pedal list is empty, in
  which no two notes of the same channel and pitch overlap and every note has
  \<open>start < end\<close>, converting it with \<open>dict_to_midi\<close> and re-pairing the track
  (absolute ticks, then \<open>_extract_track_data\<close>) gives the same multiset of notes
  \<open>(pitch, channel, start, end, velocity)\<close>.
\<close>

theorem C7_round_trip:
  assumes "wf_MidiDict md"
    and "pedal_msgs md = []"
    and "no_overlaps (note_msgs md)"
    and "\<forall>m\<in>set (note_msgs md). start (note_data m) < end_tick (note_data m)"
  shows "mset (map note_tuple (reassembled_notes md)) = mset (map note_tuple (note_msgs md))"
proof -
  have "\<forall>m\<in>set (note_msgs md).
        start (note_data m) < end_tick (note_data m) \<and> 0 < velocity (note_data m)"
    using assms(1,4) by (fastforce simp add: wf_MidiDict_def)
  with assms(3) have "mset (reassembled_notes md) = mset (map retick (note_msgs md))"
    by (rule mset_reassembled_notes)
  then have "image_mset note_tuple (mset (reassembled_notes md))
      = image_mset note_tuple (mset (map retick (note_msgs md)))" by simp
  then show ?thesis by (simp add: multiset.map_comp comp_def)
qed

theorem C7_witness:
  "mset (map note_tuple (reassembled_notes (document [] [instrument_msg 0 0 0]
      [note_msg 0 60 0 100 64, note_msg 0 61 50 150 70, note_msg 0 60 100 150 80])))
   = {#(60, 0, 0, 100, 64), (61, 0, 50, 150, 70), (60, 0, 100, 150, 80)#}"
proof -
  let ?d = "document [] [instrument_msg 0 0 0]
      [note_msg 0 60 0 100 64, note_msg 0 61 50 150 70, note_msg 0 60 100 150 80]"
  have 1: "wf_MidiDict ?d" by (simp add: wf_MidiDict_def)
  have 2: "pedal_msgs ?d = []" by simp
  have 3: "no_overlaps (note_msgs ?d)"
    by (simp add: no_overlaps_def same_key_def ranges_overlap_def)
  have 4: "\<forall>m\<in>set (note_msgs ?d). start (note_data m) < end_tick (note_data m)" by simp
  from C7_round_trip [OF 1 2 3 4] show ?thesis by (simp add: note_tuple_def)
qed

end
